theory Spec2Isabelle
  imports Main
begin

section \<open>Python strings\<close>

text \<open>
  A Python \<open>str\<close> is a sequence of code points. It is modelled as a \<^typ>\<open>string\<close> whose
  characters are the code points below 256 (the ASCII and Latin-1 blocks); \<open>of_char\<close>
  reads the code point. Strings with higher code points are outside the model.

  \<open>py_isspace\<close> is the test behind \<open>str.strip()\<close>, \<open>str.split()\<close> and the regular
  expression class \<open>\s\<close> of a \<open>str\<close> pattern: TAB, LF, VT, FF, CR, the separators
  0x1C to 0x1F, the space, NEL (0x85) and the no-break space (0xA0).
\<close>

definition py_isspace :: "char \<Rightarrow> bool" where
  "py_isspace c =
     (let n = (of_char c :: nat)
      in (9 \<le> n \<and> n \<le> 13) \<or> (28 \<le> n \<and> n \<le> 32) \<or> n = 133 \<or> n = 160)"

text \<open>
  \<open>str.lower()\<close> on these code points maps each character on its own: \<open>A\<close> to \<open>Z\<close> and
  the Latin-1 capitals 0xC0 to 0xDE (the multiplication sign 0xD7 is not a letter) move up
  by 32, every other character stays.
\<close>

definition py_lower_char :: "char \<Rightarrow> char" where
  "py_lower_char c =
     (let n = (of_char c :: nat)
      in if (65 \<le> n \<and> n \<le> 90) \<or> (192 \<le> n \<and> n \<le> 222 \<and> n \<noteq> 215)
         then char_of (n + 32) else c)"

definition py_lower :: "string \<Rightarrow> string" where
  "py_lower s = map py_lower_char s"

definition py_strip :: "string \<Rightarrow> string" where
  "py_strip s = rev (dropWhile py_isspace (rev (dropWhile py_isspace s)))"

section \<open>FormFieldMapping/main.py\<close>

subsection \<open>normalize_field_name\<close>

text \<open>
  The character class \<open>[/\-_().,\s]\<close> of the \<open>re.sub\<close> call: one of the seven listed
  characters, or white space.
\<close>

definition special_char :: "char \<Rightarrow> bool" where
  "special_char c = (c \<in> set ''/-_().,'' \<or> py_isspace c)"

text \<open>\<open>re.sub(pattern, '', s)\<close> for a pattern that matches single characters.\<close>

definition re_sub_special :: "string \<Rightarrow> string" where
  "re_sub_special s = filter (\<lambda>c. \<not> special_char c) s"

definition normalize_field_name :: "string \<Rightarrow> string" where
  "normalize_field_name name =
     (if name = [] then []
      else re_sub_special (py_strip (py_lower name)))"

subsection \<open>get_all_fields and resolve_field_by_name\<close>

text \<open>
  The dictionaries built by \<open>get_all_fields\<close> have the keys \<open>id\<close>, \<open>field_name\<close> and
  \<open>normalized_name\<close>; those returned by \<open>resolve_field_by_name\<close> have \<open>id\<close>,
  \<open>field_name\<close> and \<open>input_name\<close>.
\<close>

record field =
  f_id :: string
  f_field_name :: string
  f_normalized_name :: string

record resolved_field =
  r_id :: string
  r_field_name :: string
  r_input_name :: string

text \<open>
  \<open>get_all_fields\<close> takes what the SELECT gave: \<open>Some results\<close> for the rows of
  \<open>fetchall()\<close>, each an (id, field_name) pair, and \<open>None\<close> when the query raised, where
  the function rolls back and returns the empty list.
\<close>

definition get_all_fields :: "(string \<times> string) list option \<Rightarrow> field list" where
  "get_all_fields fetched =
     (case fetched of
        None \<Rightarrow> []
      | Some results \<Rightarrow>
          map (\<lambda>row. \<lparr>f_id = fst row, f_field_name = snd row,
                       f_normalized_name = normalize_field_name (snd row)\<rparr>) results)"

fun resolve_loop :: "field list \<Rightarrow> string \<Rightarrow> string \<Rightarrow> resolved_field option" where
  "resolve_loop [] normalized_input input_name = None"
| "resolve_loop (fld # rest) normalized_input input_name =
     (if f_normalized_name fld = normalized_input
      then Some \<lparr>r_id = f_id fld, r_field_name = f_field_name fld, r_input_name = input_name\<rparr>
      else resolve_loop rest normalized_input input_name)"

definition resolve_field_by_name :: "field list \<Rightarrow> string \<Rightarrow> resolved_field option" where
  "resolve_field_by_name all_fields input_name =
     resolve_loop all_fields (normalize_field_name input_name) input_name"

subsection \<open>Terminal input and exceptions\<close>

text \<open>
  The terminal is the list of events still to come on standard input: a line typed (as
  \<open>input()\<close> returns it, without its newline) or Ctrl-C, on which \<open>input()\<close> raises
  \<open>KeyboardInterrupt\<close>. At the end of the list \<open>input()\<close> raises \<open>EOFError\<close>.
  Text written by \<open>print\<close> has no effect on control flow or on the database and is left
  out of the model.
\<close>

datatype in_event = Line string | Interrupt

datatype exn =
  EOFError | KeyboardInterrupt | SystemExit | IndexError | DbError | TypeError | AttributeError

text \<open>
  A call either returns a value or raises; either way it leaves a state behind. \<open>OutOfFuel\<close>
  is the result of a run that was cut off by the bound on its loops (see below); the
  functions of this section never produce it.
\<close>

datatype ('a, 's) outcome = Returned 'a 's | Raised exn 's | OutOfFuel

subsection \<open>get_bulk_input\<close>

text \<open>
  The \<open>while True\<close> loop of \<open>get_bulk_input\<close>, with its variables \<open>lines\<close> and
  \<open>empty_count\<close>. \<open>EOFError\<close> is caught and ends the loop; \<open>KeyboardInterrupt\<close> is not
  caught.
\<close>

fun bulk_loop :: "string list \<Rightarrow> nat \<Rightarrow> in_event list \<Rightarrow> (string list, in_event list) outcome" where
  "bulk_loop lines empty_count [] = Returned lines []"
| "bulk_loop lines empty_count (Interrupt # rest) = Raised KeyboardInterrupt rest"
| "bulk_loop lines empty_count (Line l # rest) =
     (if py_strip l = []
      then (if empty_count + 1 \<ge> 1 then Returned lines rest
            else bulk_loop lines (empty_count + 1) rest)
      else bulk_loop (lines @ [py_strip l]) 0 rest)"

definition get_bulk_input :: "string \<Rightarrow> in_event list \<Rightarrow> (string list, in_event list) outcome" where
  "get_bulk_input prompt stdin = bulk_loop [] 0 stdin"

subsection \<open>The database connection\<close>

text \<open>
  A psycopg2 connection, with the part of the server it talks to: the rows of the table
  that are committed, the rows inserted by the open transaction, and \<open>admits\<close>, the
  server's decision on an INSERT (its constraints), which sees the rows visible to the
  transaction and the rows of the statement. A rejected statement raises
  \<open>psycopg2.Error\<close> (\<open>DbError\<close>). With \<open>autocommit\<close> off, as \<open>psycopg2.connect\<close>
  leaves it, inserted rows stay pending until \<open>commit()\<close>; \<open>rollback()\<close> drops them.
  \<open>commit()\<close> and \<open>rollback()\<close> themselves are taken to succeed.
\<close>

record 'row pg_connection =
  autocommit :: bool
  committed :: "'row list"
  pending :: "'row list"
  admits :: "'row list \<Rightarrow> 'row list \<Rightarrow> bool"

definition pg_insert ::
  "'row list \<Rightarrow> ('row, 'm) pg_connection_scheme \<Rightarrow> (unit, ('row, 'm) pg_connection_scheme) outcome" where
  "pg_insert rows conn =
     (if admits conn (committed conn @ pending conn) rows
      then Returned ()
             (if autocommit conn then conn\<lparr>committed := committed conn @ rows\<rparr>
              else conn\<lparr>pending := pending conn @ rows\<rparr>)
      else Raised DbError conn)"

definition pg_commit :: "('row, 'm) pg_connection_scheme \<Rightarrow> ('row, 'm) pg_connection_scheme" where
  "pg_commit conn = conn\<lparr>committed := committed conn @ pending conn, pending := []\<rparr>"

definition pg_rollback :: "('row, 'm) pg_connection_scheme \<Rightarrow> ('row, 'm) pg_connection_scheme" where
  "pg_rollback conn = conn\<lparr>pending := []\<rparr>"

subsection \<open>insert_mappings\<close>

record mapping_row =
  form_id :: string
  field_id :: string
  order_index :: int

text \<open>
  \<open>get_connection\<close> of \<open>utils/db_connection.py\<close>: \<open>None\<close> when \<open>psycopg2.connect\<close>
  raises, else a fresh connection to the mapping table, with no open transaction.
\<close>

definition get_connection ::
  "bool \<Rightarrow> mapping_row list \<Rightarrow> (mapping_row list \<Rightarrow> mapping_row list \<Rightarrow> bool)
     \<Rightarrow> mapping_row pg_connection option" where
  "get_connection reachable table constraints =
     (if reachable
      then Some \<lparr>autocommit = False, committed = table, pending = [], admits = constraints\<rparr>
      else None)"

text \<open>The \<open>for index, field in enumerate(resolved_fields, start=1)\<close> loop.\<close>

fun insert_loop ::
  "string \<Rightarrow> int \<Rightarrow> resolved_field list \<Rightarrow> mapping_row pg_connection
     \<Rightarrow> (unit, mapping_row pg_connection) outcome" where
  "insert_loop fid index [] conn = Returned () conn"
| "insert_loop fid index (fld # rest) conn =
     (case pg_insert [\<lparr>form_id = fid, field_id = r_id fld, order_index = index\<rparr>] conn of
        Returned u conn' \<Rightarrow> insert_loop fid (index + 1) rest conn'
      | Raised e conn' \<Rightarrow> Raised e conn'
      | OutOfFuel \<Rightarrow> OutOfFuel)"

text \<open>
  \<open>insert_mappings\<close> returns its boolean and leaves the connection changed; the model
  returns both. Any exception of the loop is caught: rollback, \<open>False\<close>.
\<close>

definition insert_mappings ::
  "mapping_row pg_connection \<Rightarrow> string \<Rightarrow> resolved_field list \<Rightarrow> bool \<times> mapping_row pg_connection" where
  "insert_mappings conn fid resolved_fields =
     (case insert_loop fid 1 resolved_fields conn of
        Returned u conn' \<Rightarrow> (True, pg_commit conn')
      | Raised e conn' \<Rightarrow> (False, pg_rollback conn')
      | OutOfFuel \<Rightarrow> (False, conn))"

text \<open>
  The rows the specification expects of a call: one per field, in input order, the
  \<open>k\<close>-th (counting from 0) with order index \<open>k + 1\<close>.
\<close>

definition expected_mappings :: "string \<Rightarrow> resolved_field list \<Rightarrow> mapping_row list" where
  "expected_mappings fid resolved_fields =
     map (\<lambda>k. \<lparr>form_id = fid, field_id = r_id (resolved_fields ! k), order_index = int k + 1\<rparr>)
       [0..<length resolved_fields]"

text \<open>
  Two auxiliary notions for the proofs: the rows the loop sends when it starts at index
  \<open>i\<close>, and the server admitting each row of a list in turn, every earlier one being
  visible to the later ones.
\<close>

fun rows_from :: "string \<Rightarrow> int \<Rightarrow> resolved_field list \<Rightarrow> mapping_row list" where
  "rows_from fid i [] = []"
| "rows_from fid i (f # fs) =
     \<lparr>form_id = fid, field_id = r_id f, order_index = i\<rparr> # rows_from fid (i + 1) fs"

definition all_admitted :: "mapping_row pg_connection \<Rightarrow> mapping_row list \<Rightarrow> bool" where
  "all_admitted conn rows =
     (\<forall>k<length rows. admits conn (committed conn @ pending conn @ take k rows) [rows ! k])"

section \<open>category_manager\<close>

subsection \<open>More of Python's strings: split, join, int\<close>

text \<open>\<open>str.split()\<close> without arguments: the maximal runs of characters that are not white space.\<close>

fun split_loop :: "string \<Rightarrow> string \<Rightarrow> string list" where
  "split_loop word [] = (if word = [] then [] else [word])"
| "split_loop word (c # cs) =
     (if py_isspace c then (if word = [] then split_loop [] cs else word # split_loop [] cs)
      else split_loop (word @ [c]) cs)"

definition py_split :: "string \<Rightarrow> string list" where
  "py_split s = split_loop [] s"

fun py_join :: "string \<Rightarrow> string list \<Rightarrow> string" where
  "py_join sep [] = []"
| "py_join sep [w] = w"
| "py_join sep (w # ws) = w @ sep @ py_join sep ws"

text \<open>
  \<open>int(s)\<close> on a string: surrounding white space is dropped, then an optional sign and a
  decimal literal, whose digits may be separated by single underscores. \<open>None\<close> stands
  for \<open>ValueError\<close>. (The bound that recent interpreters put on the length of the
  literal is not modelled.)
\<close>

definition is_digit :: "char \<Rightarrow> bool" where
  "is_digit c = (48 \<le> (of_char c :: nat) \<and> (of_char c :: nat) \<le> 57)"

definition digit_value :: "char \<Rightarrow> int" where
  "digit_value c = int (of_char c) - 48"

fun parse_digits :: "int \<Rightarrow> string \<Rightarrow> int option" where
  "parse_digits acc [] = Some acc"
| "parse_digits acc [c] = (if is_digit c then Some (acc * 10 + digit_value c) else None)"
| "parse_digits acc (c # d # cs) =
     (if is_digit c then parse_digits (acc * 10 + digit_value c) (d # cs)
      else if c = CHR ''_'' \<and> is_digit d then parse_digits (acc * 10 + digit_value d) cs
      else None)"

definition py_int :: "string \<Rightarrow> int option" where
  "py_int s =
     (let t = py_strip s;
          negative = (case t of [] \<Rightarrow> False | c # cs \<Rightarrow> c = CHR ''-'');
          body = (case t of [] \<Rightarrow> [] | c # cs \<Rightarrow> if c = CHR ''-'' \<or> c = CHR ''+'' then cs else t)
      in case body of
           [] \<Rightarrow> None
         | c # cs \<Rightarrow>
             if is_digit c
             then map_option (\<lambda>n. if negative then - n else n) (parse_digits (digit_value c) cs)
             else None)"

subsection \<open>The world of the category manager\<close>

text \<open>
  A row of the category table; its \<open>id\<close> column is generated by the server and is opaque
  to the program, which only passes it on as \<open>parent_category_id\<close>.
\<close>

type_synonym category_id = nat

record category_row =
  c_id :: category_id
  c_name :: string
  c_description :: string
  c_category_type :: string
  c_visibility_scope :: string
  c_entity_id :: string
  c_parent_category_id :: "category_id option"

text \<open>
  The one SQL statement of the program: its text is fixed up to the VALUES clause, which
  joins \<open>values_list\<close>, one placeholder group per row; \<open>params\<close> is the flat list of
  values the groups refer to.
\<close>

datatype sql_value = SqlText string | SqlKey category_id | SqlNull

record statement =
  values_list :: "string list"
  params :: "sql_value list"

record category_conn = "category_row pg_connection" +
  serial :: nat

datatype event = Prompt string | Execute statement | Commit | Rollback | Close

text \<open>
  The world the program runs in: the terminal input still to come, the trace of what the
  program has done to the outside (prompts written by \<open>input(prompt)\<close>, statements sent,
  commits, rollbacks, the closing of the connection), whether the server can be reached,
  and the state of the table with the program's session on it.
\<close>

record world =
  terminal :: "in_event list"
  trace :: "event list"
  reachable :: bool
  session :: category_conn

text \<open>\<open>input(prompt)\<close>; an empty prompt writes nothing.\<close>

definition py_input :: "string \<Rightarrow> world \<Rightarrow> (string, world) outcome" where
  "py_input prompt w =
     (let w' = (if prompt = [] then w else w\<lparr>trace := trace w @ [Prompt prompt]\<rparr>)
      in case terminal w' of
           [] \<Rightarrow> Raised EOFError w'
         | Interrupt # rest \<Rightarrow> Raised KeyboardInterrupt (w'\<lparr>terminal := rest\<rparr>)
         | Line l # rest \<Rightarrow> Returned l (w'\<lparr>terminal := rest\<rparr>))"

subsection \<open>The server's side of an INSERT\<close>

text \<open>
  The server reads the parameters six at a time, one group per placeholder group, and
  gives each new row the next key of the table's generator. \<open>RETURNING id\<close> yields the
  keys of the new rows in the order of the VALUES clause. A parameter list that does not
  fit the placeholder groups raises \<open>TypeError\<close>.
\<close>

fun text_of :: "sql_value \<Rightarrow> string option" where
  "text_of (SqlText s) = Some s"
| "text_of (SqlKey k) = None"
| "text_of SqlNull = None"

fun key_of :: "sql_value \<Rightarrow> category_id option option" where
  "key_of SqlNull = Some None"
| "key_of (SqlKey k) = Some (Some k)"
| "key_of (SqlText s) = None"

definition decode_group :: "category_id \<Rightarrow> sql_value list \<Rightarrow> category_row option" where
  "decode_group key g =
     (case (text_of (g ! 0), text_of (g ! 1), text_of (g ! 2), text_of (g ! 3), text_of (g ! 4),
            key_of (g ! 5)) of
        (Some n, Some d, Some t, Some v, Some e, Some p) \<Rightarrow>
          Some \<lparr>c_id = key, c_name = n, c_description = d, c_category_type = t,
                c_visibility_scope = v, c_entity_id = e, c_parent_category_id = p\<rparr>
      | _ \<Rightarrow> None)"

fun decode_rows :: "nat \<Rightarrow> category_id \<Rightarrow> sql_value list \<Rightarrow> category_row list option" where
  "decode_rows 0 key ps = (if ps = [] then Some [] else None)"
| "decode_rows (Suc n) key ps =
     (if length ps < 6 then None
      else case decode_group key (take 6 ps) of
             None \<Rightarrow> None
           | Some row \<Rightarrow> map_option (\<lambda>rows. row # rows) (decode_rows n (Suc key) (drop 6 ps)))"

definition execute_insert :: "statement \<Rightarrow> category_conn \<Rightarrow> (category_id list, category_conn) outcome" where
  "execute_insert stmt conn =
     (case decode_rows (length (values_list stmt)) (serial conn) (params stmt) of
        None \<Rightarrow> Raised TypeError conn
      | Some rows \<Rightarrow>
          (case pg_insert rows conn of
             Returned u conn' \<Rightarrow>
               Returned (map c_id rows) (conn'\<lparr>serial := serial conn + length rows\<rparr>)
           | Raised e conn' \<Rightarrow> Raised e conn'
           | OutOfFuel \<Rightarrow> OutOfFuel))"

text \<open>\<open>cursor.execute(insert_query, params)\<close> followed by \<open>cursor.fetchall()\<close>.\<close>

definition cursor_execute :: "statement \<Rightarrow> world \<Rightarrow> (category_id list, world) outcome" where
  "cursor_execute stmt w =
     (case execute_insert stmt (session w) of
        Returned ids conn' \<Rightarrow> Returned ids (w\<lparr>trace := trace w @ [Execute stmt], session := conn'\<rparr>)
      | Raised e conn' \<Rightarrow> Raised e (w\<lparr>trace := trace w @ [Execute stmt], session := conn'\<rparr>)
      | OutOfFuel \<Rightarrow> OutOfFuel)"

definition connection_commit :: "world \<Rightarrow> world" where
  "connection_commit w = w\<lparr>trace := trace w @ [Commit], session := pg_commit (session w)\<rparr>"

definition connection_rollback :: "world \<Rightarrow> world" where
  "connection_rollback w = w\<lparr>trace := trace w @ [Rollback], session := pg_rollback (session w)\<rparr>"

text \<open>Closing a connection discards what its transaction has not committed.\<close>

definition connection_close :: "world \<Rightarrow> world" where
  "connection_close w = w\<lparr>trace := trace w @ [Close], session := pg_rollback (session w)\<rparr>"

subsection \<open>utils/db_connection.py: class DatabaseConnection\<close>

text \<open>
  The object holds two attributes, \<open>None\<close> until \<open>connect\<close> has succeeded. Using an
  attribute of \<open>None\<close> raises \<open>AttributeError\<close>.
\<close>

datatype handle = Handle

record DatabaseConnection =
  connection :: "handle option"
  cursor :: "handle option"

definition init_DatabaseConnection :: DatabaseConnection where
  "init_DatabaseConnection = \<lparr>connection = None, cursor = None\<rparr>"

text \<open>
  \<open>connect\<close>: \<open>psycopg2.connect\<close> raises when the server cannot be reached; otherwise it
  opens a session with no transaction and autocommit off, and the method sets
  \<open>autocommit = False\<close> itself.
\<close>

definition psycopg2_connect :: "world \<Rightarrow> (handle, world) outcome" where
  "psycopg2_connect w =
     (if reachable w
      then Returned Handle (w\<lparr>session := (session w)\<lparr>autocommit := False, pending := []\<rparr>\<rparr>)
      else Raised DbError w)"

definition connect :: "DatabaseConnection \<Rightarrow> world \<Rightarrow> bool \<times> DatabaseConnection \<times> world" where
  "connect db w =
     (case psycopg2_connect w of
        Returned h w' \<Rightarrow>
          (True, db\<lparr>connection := Some h, cursor := Some Handle\<rparr>,
           w'\<lparr>session := (session w')\<lparr>autocommit := False\<rparr>\<rparr>)
      | Raised e w' \<Rightarrow> (False, db, w')
      | OutOfFuel \<Rightarrow> (False, db, w))"

definition disconnect :: "DatabaseConnection \<Rightarrow> world \<Rightarrow> world" where
  "disconnect db w = (if connection db \<noteq> None then connection_close w else w)"

definition values_template :: string where
  "values_template = ''(%s, %s, %s, %s, %s, %s)''"

definition parent_param :: "category_id option \<Rightarrow> sql_value" where
  "parent_param parent_category_id =
     (case parent_category_id of None \<Rightarrow> SqlNull | Some k \<Rightarrow> SqlKey k)"

text \<open>The \<open>for name, description in categories\<close> loop, with its two accumulators.\<close>

fun build_values ::
  "(string \<times> string) list \<Rightarrow> string \<Rightarrow> category_id option \<Rightarrow> string list \<Rightarrow> sql_value list
     \<Rightarrow> string list \<times> sql_value list" where
  "build_values [] entity_id parent_category_id vlist ps = (vlist, ps)"
| "build_values ((name, description) # rest) entity_id parent_category_id vlist ps =
     build_values rest entity_id parent_category_id
       (vlist @ [values_template])
       (ps @ [SqlText name, SqlText description, SqlText ''OTHER'', SqlText ''PUBLIC'',
              SqlText entity_id, parent_param parent_category_id])"

definition insert_query ::
  "(string \<times> string) list \<Rightarrow> string \<Rightarrow> category_id option \<Rightarrow> statement" where
  "insert_query categories entity_id parent_category_id =
     (case build_values categories entity_id parent_category_id [] [] of
        (vlist, ps) \<Rightarrow> \<lparr>values_list = vlist, params = ps\<rparr>)"

text \<open>
  \<open>bulk_insert_categories\<close>. Only \<open>psycopg2.Error\<close> is caught: the method rolls back and
  raises it again.
\<close>

definition bulk_insert_categories ::
  "DatabaseConnection \<Rightarrow> (string \<times> string) list \<Rightarrow> string \<Rightarrow> category_id option \<Rightarrow> world
     \<Rightarrow> (category_id list, world) outcome" where
  "bulk_insert_categories db categories entity_id parent_category_id w =
     (if categories = [] then Returned [] w
      else if cursor db = None then Raised AttributeError w
      else case cursor_execute (insert_query categories entity_id parent_category_id) w of
             Returned generated_ids w' \<Rightarrow> Returned generated_ids w'
           | Raised e w' \<Rightarrow>
               if e = DbError
               then (if connection db = None then Raised AttributeError w'
                     else Raised DbError (connection_rollback w'))
               else Raised e w'
           | OutOfFuel \<Rightarrow> OutOfFuel)"

definition commit :: "DatabaseConnection \<Rightarrow> world \<Rightarrow> world" where
  "commit db w = (if connection db \<noteq> None then connection_commit w else w)"

definition rollback :: "DatabaseConnection \<Rightarrow> world \<Rightarrow> world" where
  "rollback db w = (if connection db \<noteq> None then connection_rollback w else w)"

subsection \<open>category_manager/main.py: the input helpers\<close>

definition is_hex :: "char \<Rightarrow> bool" where
  "is_hex c =
     (let n = (of_char c :: nat)
      in (48 \<le> n \<and> n \<le> 57) \<or> (97 \<le> n \<and> n \<le> 102) \<or> (65 \<le> n \<and> n \<le> 70))"

definition uuid_shape :: "string \<Rightarrow> bool" where
  "uuid_shape s =
     (length s = 36
      \<and> list_all is_hex (take 8 s) \<and> s ! 8 = CHR ''-''
      \<and> list_all is_hex (take 4 (drop 9 s)) \<and> s ! 13 = CHR ''-''
      \<and> list_all is_hex (take 4 (drop 14 s)) \<and> s ! 18 = CHR ''-''
      \<and> list_all is_hex (take 4 (drop 19 s)) \<and> s ! 23 = CHR ''-''
      \<and> list_all is_hex (drop 24 s))"

text \<open>\<open>UUID_PATTERN.match\<close>: the final \<open>$\<close> also matches before a newline that ends the string.\<close>

definition UUID_PATTERN_match :: "string \<Rightarrow> bool" where
  "UUID_PATTERN_match s =
     (uuid_shape s \<or> (s \<noteq> [] \<and> last s = char_of (10 :: nat) \<and> uuid_shape (butlast s)))"

text \<open>
  Each of the three prompt loops reads one line per round, so it ends with the input at the
  latest (\<open>EOFError\<close>): the recursion is on the length of the input still to come.
\<close>

function get_valid_uuid :: "string \<Rightarrow> world \<Rightarrow> (string, world) outcome" where
  "get_valid_uuid prompt w =
     (case py_input prompt w of
        Returned line w' \<Rightarrow>
          if UUID_PATTERN_match (py_strip line) then Returned (py_strip line) w'
          else get_valid_uuid prompt w'
      | Raised e w' \<Rightarrow> Raised e w'
      | OutOfFuel \<Rightarrow> OutOfFuel)"
  by pat_completeness auto
termination
  by (relation "measure (\<lambda>(prompt, w). length (terminal w))")
    (auto simp: py_input_def Let_def split: list.splits in_event.splits if_splits)

function get_positive_integer :: "string \<Rightarrow> world \<Rightarrow> (int, world) outcome" where
  "get_positive_integer prompt w =
     (case py_input prompt w of
        Returned line w' \<Rightarrow>
          (case py_int (py_strip line) of
             None \<Rightarrow> get_positive_integer prompt w'
           | Some v \<Rightarrow> if v > 0 then Returned v w' else get_positive_integer prompt w')
      | Raised e w' \<Rightarrow> Raised e w'
      | OutOfFuel \<Rightarrow> OutOfFuel)"
  by pat_completeness auto
termination
  by (relation "measure (\<lambda>(prompt, w). length (terminal w))")
    (auto simp: py_input_def Let_def split: list.splits in_event.splits if_splits)

function get_yes_no :: "string \<Rightarrow> world \<Rightarrow> (bool, world) outcome" where
  "get_yes_no prompt w =
     (case py_input prompt w of
        Returned line w' \<Rightarrow>
          if py_lower (py_strip line) \<in> {''y'', ''yes''} then Returned True w'
          else if py_lower (py_strip line) \<in> {''n'', ''no''} then Returned False w'
          else get_yes_no prompt w'
      | Raised e w' \<Rightarrow> Raised e w'
      | OutOfFuel \<Rightarrow> OutOfFuel)"
  by pat_completeness auto
termination
  by (relation "measure (\<lambda>(prompt, w). length (terminal w))")
    (auto simp: py_input_def Let_def split: list.splits in_event.splits if_splits)

declare get_valid_uuid.simps [simp del]
declare get_positive_integer.simps [simp del]
declare get_yes_no.simps [simp del]

subsection \<open>generate_description\<close>

definition templates :: "string \<Rightarrow> string list" where
  "templates clean_name =
     [''Category for managing '' @ clean_name @ '' related items'',
      ''Contains all '' @ clean_name @ '' related entries'',
      ''Handles '' @ clean_name @ '' classification and organization'',
      ''Groups items related to '' @ clean_name @ '' topic'',
      ''Organizes content under '' @ clean_name @ '' classification'']"

definition generate_description :: "string \<Rightarrow> string" where
  "generate_description category_name =
     (let clean_name = py_lower (py_strip category_name);
          index = length clean_name mod length (templates clean_name);
          description = templates clean_name ! index;
          words = py_split description
      in if length words > 10 then py_join '' '' (take 10 words) else description)"

subsection \<open>collect_category_names_multiline\<close>

text \<open>
  The inner \<open>while True\<close> loop is, statement for statement, the loop of \<open>get_bulk_input\<close>;
  its \<open>input()\<close> has no prompt, so it only consumes terminal input.
\<close>

definition read_names :: "world \<Rightarrow> (string list, world) outcome" where
  "read_names w =
     (case bulk_loop [] 0 (terminal w) of
        Returned lines rest \<Rightarrow> Returned lines (w\<lparr>terminal := rest\<rparr>)
      | Raised e rest \<Rightarrow> Raised e (w\<lparr>terminal := rest\<rparr>)
      | OutOfFuel \<Rightarrow> OutOfFuel)"

text \<open>
  The outer \<open>while True\<close> loop starts over whenever the number of names is not the
  expected one. Once the input is exhausted it reads no name at all and, for a positive
  count, starts over for ever. The fuel bounds the number of rounds; \<open>OutOfFuel\<close> is the
  result of a run that needs more.
\<close>

fun collect_category_names_multiline ::
  "nat \<Rightarrow> int \<Rightarrow> string \<Rightarrow> world \<Rightarrow> ((string \<times> string) list, world) outcome" where
  "collect_category_names_multiline 0 count indent w = OutOfFuel"
| "collect_category_names_multiline (Suc fuel) count indent w =
     (case read_names w of
        Returned lines w' \<Rightarrow>
          (let names = filter (\<lambda>line. line \<noteq> []) lines
           in if int (length names) \<noteq> count
              then collect_category_names_multiline fuel count indent w'
              else Returned (map (\<lambda>name. (name, generate_description name)) names) w')
      | Raised e w' \<Rightarrow> Raised e w'
      | OutOfFuel \<Rightarrow> OutOfFuel)"

subsection \<open>process_subcategories_depth_first\<close>

text \<open>The dictionaries with the keys \<open>id\<close> and \<open>name\<close>.\<close>

record category =
  cat_id :: category_id
  cat_name :: string

text \<open>
  The loop that pairs the names with the returned keys; \<open>sub_ids[i]\<close> raises
  \<open>IndexError\<close> when fewer keys came back than names were sent.
\<close>

fun inserted_loop ::
  "(string \<times> string) list \<Rightarrow> category_id list \<Rightarrow> nat \<Rightarrow> category list \<Rightarrow> category list option" where
  "inserted_loop [] ids i inserted = Some inserted"
| "inserted_loop ((name, desc) # rest) ids i inserted =
     (if i < length ids
      then inserted_loop rest ids (i + 1) (inserted @ [\<lparr>cat_id = ids ! i, cat_name = name\<rparr>])
      else None)"

definition indent_of :: "nat \<Rightarrow> string" where
  "indent_of level = concat (replicate level ''  '')"

definition subcategory_prompt :: "nat \<Rightarrow> string \<Rightarrow> string" where
  "subcategory_prompt level name =
     indent_of level @ ''Is subcategory available for '' @ [char_of (34 :: nat)] @ name
       @ [char_of (34 :: nat)] @ ''? (y/n): ''"

definition count_prompt :: "nat \<Rightarrow> string" where
  "count_prompt level = indent_of level @ ''Enter number of subcategories: ''"

text \<open>
  The function recurses as deep as the user asks for. The fuel bounds the calls that are
  open at one time plus the loop rounds, and it is also what the rounds of
  \<open>collect_category_names_multiline\<close> get; a run that needs more gives \<open>OutOfFuel\<close>.
\<close>

fun process_subcategories_depth_first ::
  "nat \<Rightarrow> DatabaseConnection \<Rightarrow> string \<Rightarrow> category list \<Rightarrow> nat \<Rightarrow> world \<Rightarrow> (unit, world) outcome" where
  "process_subcategories_depth_first 0 db entity_id categories level w = OutOfFuel"
| "process_subcategories_depth_first (Suc fuel) db entity_id [] level w = Returned () w"
| "process_subcategories_depth_first (Suc fuel) db entity_id (cat # rest) level w =
     (case get_yes_no (subcategory_prompt level (cat_name cat)) w of
        Raised e w1 \<Rightarrow> Raised e w1
      | OutOfFuel \<Rightarrow> OutOfFuel
      | Returned has_sub w1 \<Rightarrow>
          if has_sub then
            (case get_positive_integer (count_prompt level) w1 of
               Raised e w2 \<Rightarrow> Raised e w2
             | OutOfFuel \<Rightarrow> OutOfFuel
             | Returned sub_count w2 \<Rightarrow>
                 (case collect_category_names_multiline fuel sub_count (indent_of level) w2 of
                    Raised e w3 \<Rightarrow> Raised e w3
                  | OutOfFuel \<Rightarrow> OutOfFuel
                  | Returned sub_categories w3 \<Rightarrow>
                      (case bulk_insert_categories db sub_categories entity_id (Some (cat_id cat)) w3 of
                         Raised e w4 \<Rightarrow> Raised e w4
                       | OutOfFuel \<Rightarrow> OutOfFuel
                       | Returned sub_ids w4 \<Rightarrow>
                           (case inserted_loop sub_categories sub_ids 0 [] of
                              None \<Rightarrow> Raised IndexError w4
                            | Some inserted_subs \<Rightarrow>
                                (case process_subcategories_depth_first fuel db entity_id
                                        inserted_subs (level + 1) w4 of
                                   Raised e w5 \<Rightarrow> Raised e w5
                                 | OutOfFuel \<Rightarrow> OutOfFuel
                                 | Returned u w5 \<Rightarrow>
                                     process_subcategories_depth_first fuel db entity_id
                                       rest level w5)))))
          else process_subcategories_depth_first fuel db entity_id rest level w1)"

subsection \<open>main\<close>

text \<open>
  The \<open>try\<close> block in two parts: everything up to the depth-first expansion, and the
  confirmation with the commit or rollback it decides.
\<close>

definition main_expand :: "nat \<Rightarrow> DatabaseConnection \<Rightarrow> world \<Rightarrow> (unit, world) outcome" where
  "main_expand fuel db w =
     (case get_valid_uuid ''Enter the Entity ID (UUID format): '' w of
        Raised e w1 \<Rightarrow> Raised e w1
      | OutOfFuel \<Rightarrow> OutOfFuel
      | Returned entity_id w1 \<Rightarrow>
          (case get_positive_integer ''Enter number of categories: '' w1 of
             Raised e w2 \<Rightarrow> Raised e w2
           | OutOfFuel \<Rightarrow> OutOfFuel
           | Returned top_count w2 \<Rightarrow>
               (case collect_category_names_multiline fuel top_count [] w2 of
                  Raised e w3 \<Rightarrow> Raised e w3
                | OutOfFuel \<Rightarrow> OutOfFuel
                | Returned top_categories w3 \<Rightarrow>
                    (case bulk_insert_categories db top_categories entity_id None w3 of
                       Raised e w4 \<Rightarrow> Raised e w4
                     | OutOfFuel \<Rightarrow> OutOfFuel
                     | Returned top_ids w4 \<Rightarrow>
                         (case inserted_loop top_categories top_ids 0 [] of
                            None \<Rightarrow> Raised IndexError w4
                          | Some inserted_top \<Rightarrow>
                              process_subcategories_depth_first fuel db entity_id
                                inserted_top 1 w4)))))"

definition commit_prompt :: string where
  "commit_prompt = ''Commit all changes to database? (y/n): ''"

definition main_try :: "nat \<Rightarrow> DatabaseConnection \<Rightarrow> world \<Rightarrow> (unit, world) outcome" where
  "main_try fuel db w =
     (case main_expand fuel db w of
        Raised e w1 \<Rightarrow> Raised e w1
      | OutOfFuel \<Rightarrow> OutOfFuel
      | Returned u w1 \<Rightarrow>
          (case get_yes_no commit_prompt w1 of
             Raised e w2 \<Rightarrow> Raised e w2
           | OutOfFuel \<Rightarrow> OutOfFuel
           | Returned confirm w2 \<Rightarrow>
               Returned () (if confirm then commit db w2 else rollback db w2)))"

text \<open>
  \<open>except KeyboardInterrupt\<close> and \<open>except Exception\<close> both roll back; \<open>SystemExit\<close> is
  neither. The \<open>finally\<close> clause disconnects in every case. \<open>sys.exit(1)\<close> comes before
  the \<open>try\<close>.
\<close>

definition is_Exception :: "exn \<Rightarrow> bool" where
  "is_Exception e = (e \<noteq> KeyboardInterrupt \<and> e \<noteq> SystemExit)"

definition main :: "nat \<Rightarrow> world \<Rightarrow> (unit, world) outcome" where
  "main fuel w =
     (case connect init_DatabaseConnection w of
        (connected, db, w0) \<Rightarrow>
          if \<not> connected then Raised SystemExit w0
          else case main_try fuel db w0 of
                 Returned u w1 \<Rightarrow> Returned () (disconnect db w1)
               | Raised e w1 \<Rightarrow>
                   if e = KeyboardInterrupt then Returned () (disconnect db (rollback db w1))
                   else if is_Exception e then Returned () (disconnect db (rollback db w1))
                   else Raised e (disconnect db w1)
               | OutOfFuel \<Rightarrow> OutOfFuel)"

subsection \<open>What the specification expects of a bulk insert\<close>

text \<open>
  The rows a bulk insert is to add: one per (name, description) pair, in input order,
  with the default type and scope, the given entity and parent, and the keys the
  generator hands out from \<open>key\<close> on. \<open>rows_for\<close> is the same list by recursion, for
  the proofs, and \<open>param_group\<close> the six parameters of one row.
\<close>

definition new_rows ::
  "category_id \<Rightarrow> string \<Rightarrow> category_id option \<Rightarrow> (string \<times> string) list \<Rightarrow> category_row list" where
  "new_rows key entity_id parent_category_id categories =
     map (\<lambda>i. \<lparr>c_id = key + i, c_name = fst (categories ! i),
                c_description = snd (categories ! i), c_category_type = ''OTHER'',
                c_visibility_scope = ''PUBLIC'', c_entity_id = entity_id,
                c_parent_category_id = parent_category_id\<rparr>)
       [0..<length categories]"

fun rows_for ::
  "category_id \<Rightarrow> string \<Rightarrow> category_id option \<Rightarrow> (string \<times> string) list \<Rightarrow> category_row list" where
  "rows_for key entity_id parent_category_id [] = []"
| "rows_for key entity_id parent_category_id (nd # rest) =
     \<lparr>c_id = key, c_name = fst nd, c_description = snd nd, c_category_type = ''OTHER'',
      c_visibility_scope = ''PUBLIC'', c_entity_id = entity_id,
      c_parent_category_id = parent_category_id\<rparr>
     # rows_for (Suc key) entity_id parent_category_id rest"

definition param_group :: "string \<Rightarrow> category_id option \<Rightarrow> string \<times> string \<Rightarrow> sql_value list" where
  "param_group entity_id parent_category_id nd =
     [SqlText (fst nd), SqlText (snd nd), SqlText ''OTHER'', SqlText ''PUBLIC'',
      SqlText entity_id, parent_param parent_category_id]"

subsection \<open>Depth-first order, from the words of the specification\<close>

text \<open>
  What the user types. An answer to a yes/no question is a line that reads \<open>y\<close>, \<open>yes\<close>,
  \<open>n\<close> or \<open>no\<close> (whatever the case and the blanks around it), after any number of lines
  that read something else; an answer to the question for a number is a line that reads a
  positive integer, after any number of lines that do not; a block of names is a run of
  non-blank lines closed by a blank line, and the names asked for are the block that has
  the announced number of them, after any number of blocks that have another number.
\<close>

definition is_yes :: "string \<Rightarrow> bool" where
  "is_yes line = (py_lower (py_strip line) \<in> {''y'', ''yes''})"

definition is_no :: "string \<Rightarrow> bool" where
  "is_no line = (py_lower (py_strip line) \<in> {''n'', ''no''})"

definition answers :: "bool \<Rightarrow> string list \<Rightarrow> bool" where
  "answers yes typed =
     (typed \<noteq> [] \<and> list_all (\<lambda>line. \<not> is_yes line \<and> \<not> is_no line) (butlast typed)
      \<and> (if yes then is_yes (last typed) else is_no (last typed)))"

definition no_count :: "string \<Rightarrow> bool" where
  "no_count line = (case py_int (py_strip line) of None \<Rightarrow> True | Some v \<Rightarrow> v \<le> 0)"

definition counts :: "int \<Rightarrow> string list \<Rightarrow> bool" where
  "counts n typed =
     (typed \<noteq> [] \<and> list_all no_count (butlast typed)
      \<and> py_int (py_strip (last typed)) = Some n \<and> 0 < n)"

definition block :: "string list \<Rightarrow> string list \<Rightarrow> bool" where
  "block typed names =
     (typed \<noteq> [] \<and> list_all (\<lambda>line. py_strip line \<noteq> []) (butlast typed)
      \<and> py_strip (last typed) = [] \<and> names = map py_strip (butlast typed))"

inductive names_typed :: "int \<Rightarrow> string list \<Rightarrow> string list \<Rightarrow> bool" where
  names_right: "block typed names \<Longrightarrow> int (length names) = n \<Longrightarrow> names_typed n typed names"
| names_again:
    "block typed wrong \<Longrightarrow> int (length wrong) \<noteq> n \<Longrightarrow> names_typed n later names \<Longrightarrow>
     names_typed n (typed @ later) names"

text \<open>
  The categories that come of a list of names: each with its generated description, and,
  once inserted, with the keys the generator hands out from \<open>key\<close> on.
\<close>

definition described :: "string list \<Rightarrow> (string \<times> string) list" where
  "described names = map (\<lambda>name. (name, generate_description name)) names"

definition children :: "category_id \<Rightarrow> string list \<Rightarrow> category list" where
  "children key names = map (\<lambda>i. \<lparr>cat_id = key + i, cat_name = names ! i\<rparr>) [0..<length names]"

text \<open>
  A depth-first expansion, from the words of the specification: what the user types, what
  the program does to the outside, and the rows it inserts, all three in the order of the
  expansion. The expansion of a list of categories is the expansion of its first category
  followed by the expansion of the others (\<open>dfs_forest\<close>). The expansion of one category
  (\<open>dfs_visit\<close>) starts with the question about subcategories. On the answer no it ends
  there, with no row inserted. On the answer yes the question for their number follows,
  then the names are typed, then the one statement inserts them with the category as their
  parent, and then comes the whole expansion of the inserted subcategories one level
  deeper. Nothing of a later sibling comes before the end of this subtree.
\<close>

inductive dfs_forest ::
    "string \<Rightarrow> nat \<Rightarrow> category list \<Rightarrow> category_id \<Rightarrow> string list \<Rightarrow> event list
       \<Rightarrow> category_row list \<Rightarrow> bool"
  and dfs_visit ::
    "string \<Rightarrow> nat \<Rightarrow> category \<Rightarrow> category_id \<Rightarrow> string list \<Rightarrow> event list
       \<Rightarrow> category_row list \<Rightarrow> bool" where
  forest_nil: "dfs_forest e level [] key [] [] []"
| forest_cons:
    "dfs_visit e level c key typed1 t1 rows1 \<Longrightarrow>
     dfs_forest e level cs (key + length rows1) typed2 t2 rows2 \<Longrightarrow>
     dfs_forest e level (c # cs) key (typed1 @ typed2) (t1 @ t2) (rows1 @ rows2)"
| visit_leaf:
    "answers False ans \<Longrightarrow>
     dfs_visit e level c key ans
       (replicate (length ans) (Prompt (subcategory_prompt level (cat_name c)))) []"
| visit_node:
    "answers True ans \<Longrightarrow> counts n cnt \<Longrightarrow> names_typed n blocks names \<Longrightarrow>
     dfs_forest e (level + 1) (children key names) (key + length names) typed t rows \<Longrightarrow>
     dfs_visit e level c key (ans @ cnt @ blocks @ typed)
       (replicate (length ans) (Prompt (subcategory_prompt level (cat_name c)))
        @ replicate (length cnt) (Prompt (count_prompt level))
        @ [Execute (insert_query (described names) e (Some (cat_id c)))] @ t)
       (new_rows key e (Some (cat_id c)) (described names) @ rows)"

text \<open>
  \<open>world_after w rest t rows\<close>: the world \<open>w\<close> once the input up to \<open>rest\<close> is read, \<open>t\<close>
  is added to the trace and \<open>rows\<close> are inserted in the open transaction.
\<close>

definition world_after :: "world \<Rightarrow> in_event list \<Rightarrow> event list \<Rightarrow> category_row list \<Rightarrow> world" where
  "world_after w rest t rows =
     w\<lparr>terminal := rest, trace := trace w @ t,
       session := (session w)\<lparr>pending := pending (session w) @ rows,
                              serial := serial (session w) + length rows\<rparr>\<rparr>"

text \<open>
  For the proofs: a step that leaves the session and the server alone, and a step that adds
  one prompt, once or more, to the trace.
\<close>

definition quiet :: "world \<Rightarrow> world \<Rightarrow> bool" where
  "quiet w w' = (session w' = session w \<and> reachable w' = reachable w)"


subsection \<open>The transaction, for the statement of its all-or-nothing property\<close>


text \<open>
  \<open>inserted_rows key t\<close>: the rows that the statements of the trace \<open>t\<close> insert, in
  order, when the key generator stands at \<open>key\<close> before the first of them.
\<close>

fun inserted_rows :: "category_id \<Rightarrow> event list \<Rightarrow> category_row list" where
  "inserted_rows key [] = []"
| "inserted_rows key (Execute stmt # t) =
     (case decode_rows (length (values_list stmt)) key (params stmt) of
        None \<Rightarrow> inserted_rows key t
      | Some rows \<Rightarrow> rows @ inserted_rows (key + length rows) t)"
| "inserted_rows key (Prompt p # t) = inserted_rows key t"
| "inserted_rows key (Commit # t) = inserted_rows key t"
| "inserted_rows key (Rollback # t) = inserted_rows key t"
| "inserted_rows key (Close # t) = inserted_rows key t"

text \<open>
  For the proofs: \<open>grown w w' t\<close> says that from \<open>w\<close> to \<open>w'\<close> the trace grew by
  \<open>t\<close>, without a commit or rollback, and that the rows inserted by \<open>t\<close> are what was
  added to the pending rows; \<open>kept w r\<close> says that the step from \<open>w\<close> with outcome
  \<open>r\<close> stayed inside the open transaction (autocommit still off, the committed rows as
  they were) and raised nothing but what \<open>main\<close> catches; \<open>then_do\<close> is the
  sequencing that the nested case distinctions of the model spell out.
\<close>

definition grown :: "world \<Rightarrow> world \<Rightarrow> event list \<Rightarrow> bool" where
  "grown w w' t =
     (trace w' = trace w @ t \<and> Commit \<notin> set t \<and> Rollback \<notin> set t
      \<and> pending (session w') = pending (session w) @ inserted_rows (serial (session w)) t
      \<and> serial (session w') = serial (session w) + length (inserted_rows (serial (session w)) t))"


definition then_do ::
  "('a, world) outcome \<Rightarrow> ('a \<Rightarrow> world \<Rightarrow> ('b, world) outcome) \<Rightarrow> ('b, world) outcome" where
  "then_do r f =
     (case r of Returned x w \<Rightarrow> f x w | Raised e w \<Rightarrow> Raised e w | OutOfFuel \<Rightarrow> OutOfFuel)"

text \<open>
  For the proofs that the fuel suffices: \<open>ready fuel w\<close> says that the input still to come
  holds an interrupt and is shorter than the fuel; \<open>total fuel r\<close> says that the outcome
  \<open>r\<close> is not \<open>OutOfFuel\<close> and that, if it is a return, the world is ready again.
\<close>

definition ready :: "nat \<Rightarrow> world \<Rightarrow> bool" where
  "ready fuel w = (Interrupt \<in> set (terminal w) \<and> length (terminal w) < fuel)"

definition total :: "nat \<Rightarrow> ('a, world) outcome \<Rightarrow> bool" where
  "total fuel r =
     (case r of Returned x w' \<Rightarrow> ready fuel w' | Raised e w' \<Rightarrow> True | OutOfFuel \<Rightarrow> False)"

section \<open>Properties of the field-name normalisation\<close>

lemma of_char_lower:
  "(of_char (py_lower_char c) :: nat) =
     (if (65 \<le> (of_char c :: nat) \<and> (of_char c :: nat) \<le> 90)
         \<or> (192 \<le> (of_char c :: nat) \<and> (of_char c :: nat) \<le> 222 \<and> (of_char c :: nat) \<noteq> 215)
      then of_char c + 32 else of_char c)"
  by (auto simp: py_lower_char_def Let_def)

lemma isspace_lower [simp]: "py_isspace (py_lower_char c) = py_isspace c"
  unfolding py_isspace_def Let_def of_char_lower by auto

lemma char_eq_code: "(c = d) = ((of_char c :: nat) = of_char d)"
  by simp

lemma special_char_code:
  "special_char c =
     ((of_char c :: nat) \<in> {47, 45, 95, 40, 41, 46, 44} \<or> py_isspace c)"
  unfolding special_char_def
  by (simp add: char_eq_code [of c] del: of_char_eq_iff)

lemma special_lower [simp]: "special_char (py_lower_char c) = special_char c"
  unfolding special_char_code isspace_lower of_char_lower by auto

lemma lower_lower [simp]: "py_lower_char (py_lower_char c) = py_lower_char c"
proof -
  have "(of_char (py_lower_char (py_lower_char c)) :: nat) = of_char (py_lower_char c)"
    unfolding of_char_lower [of "py_lower_char c"] unfolding of_char_lower [of c] by auto
  then show ?thesis by simp
qed

lemma filter_dropWhile_absorb:
  "(\<And>x. P x \<Longrightarrow> \<not> Q x) \<Longrightarrow> filter Q (dropWhile P xs) = filter Q xs"
  by (induction xs) auto

lemma filter_strip: "re_sub_special (py_strip s) = re_sub_special s"
proof -
  have sp: "\<And>x. py_isspace x \<Longrightarrow> \<not> \<not> special_char x"
    by (simp add: special_char_def)
  have "re_sub_special (py_strip s)
      = rev (filter (\<lambda>c. \<not> special_char c) (dropWhile py_isspace (rev (dropWhile py_isspace s))))"
    by (simp add: re_sub_special_def py_strip_def rev_filter)
  also have "\<dots> = rev (filter (\<lambda>c. \<not> special_char c) (rev (dropWhile py_isspace s)))"
    using filter_dropWhile_absorb [of py_isspace "\<lambda>c. \<not> special_char c"] sp by simp
  also have "\<dots> = filter (\<lambda>c. \<not> special_char c) (dropWhile py_isspace s)"
    by (simp add: rev_filter)
  also have "\<dots> = filter (\<lambda>c. \<not> special_char c) s"
    using filter_dropWhile_absorb [of py_isspace "\<lambda>c. \<not> special_char c"] sp by simp
  finally show ?thesis by (simp add: re_sub_special_def)
qed

lemma normalize_eq:
  "normalize_field_name s = filter (\<lambda>c. \<not> special_char c) (map py_lower_char s)"
proof (cases "s = []")
  case True
  then show ?thesis by (simp add: normalize_field_name_def)
next
  case False
  then have "normalize_field_name s = re_sub_special (py_strip (py_lower s))"
    by (simp add: normalize_field_name_def)
  then show ?thesis
    by (simp add: filter_strip) (simp add: re_sub_special_def py_lower_def)
qed

lemma resolve_loop_find:
  "resolve_loop fs n inp =
     map_option (\<lambda>fld. \<lparr>r_id = f_id fld, r_field_name = f_field_name fld, r_input_name = inp\<rparr>)
       (find (\<lambda>fld. f_normalized_name fld = n) fs)"
  by (induction fs) auto
section \<open>Properties of insert_mappings and get_bulk_input\<close>

lemma length_rows_from [simp]: "length (rows_from fid i fs) = length fs"
  by (induction fs arbitrary: i) auto

lemma rows_from_nth:
  "k < length fs \<Longrightarrow> rows_from fid i fs ! k = \<lparr>form_id = fid, field_id = r_id (fs ! k), order_index = i + int k\<rparr>"
proof (induction fs arbitrary: i k)
  case Nil then show ?case by simp
next
  case (Cons f fs)
  then show ?case by (cases k) auto
qed

lemma expected_rows_from: "expected_mappings fid fs = rows_from fid 1 fs"
  by (rule nth_equalityI) (simp_all add: expected_mappings_def rows_from_nth)

lemma all_admitted_Cons:
  "all_admitted conn (r # rows) =
     (admits conn (committed conn @ pending conn) [r]
      \<and> all_admitted (conn\<lparr>pending := pending conn @ [r]\<rparr>) rows)"
  by (simp add: all_admitted_def All_less_Suc2)

lemma insert_loop_all:
  "\<not> autocommit conn \<Longrightarrow> all_admitted conn (rows_from fid i fs) \<Longrightarrow>
     insert_loop fid i fs conn = Returned () (conn\<lparr>pending := pending conn @ rows_from fid i fs\<rparr>)"
proof (induction fs arbitrary: i conn)
  case Nil
  then show ?case by simp
next
  case (Cons f fs)
  let ?r = "\<lparr>form_id = fid, field_id = r_id f, order_index = i\<rparr>"
  let ?c = "conn\<lparr>pending := pending conn @ [?r]\<rparr>"
  from Cons.prems(2) have a: "admits conn (committed conn @ pending conn) [?r]"
    and b: "all_admitted ?c (rows_from fid (i + 1) fs)"
    by (simp_all add: all_admitted_Cons)
  have nc: "\<not> autocommit ?c" using Cons.prems(1) by simp
  have "insert_loop fid i (f # fs) conn = insert_loop fid (i + 1) fs ?c"
    using a Cons.prems(1) by (simp add: pg_insert_def)
  also have "\<dots> = Returned () (?c\<lparr>pending := pending ?c @ rows_from fid (i + 1) fs\<rparr>)"
    by (rule Cons.IH [OF nc b])
  finally show ?case by simp
qed

lemma insert_loop_some:
  "\<not> autocommit conn \<Longrightarrow> \<not> all_admitted conn (rows_from fid i fs) \<Longrightarrow>
     \<exists>j. insert_loop fid i fs conn
           = Raised DbError (conn\<lparr>pending := pending conn @ take j (rows_from fid i fs)\<rparr>)"
proof (induction fs arbitrary: i conn)
  case Nil
  then show ?case by (simp add: all_admitted_def)
next
  case (Cons f fs)
  let ?r = "\<lparr>form_id = fid, field_id = r_id f, order_index = i\<rparr>"
  let ?c = "conn\<lparr>pending := pending conn @ [?r]\<rparr>"
  show ?case
  proof (cases "admits conn (committed conn @ pending conn) [?r]")
    case False
    then have "insert_loop fid i (f # fs) conn
        = Raised DbError (conn\<lparr>pending := pending conn @ take 0 (rows_from fid i (f # fs))\<rparr>)"
      by (simp add: pg_insert_def)
    then show ?thesis by blast
  next
    case True
    with Cons.prems(2) have b: "\<not> all_admitted ?c (rows_from fid (i + 1) fs)"
      by (simp add: all_admitted_Cons)
    have nc: "\<not> autocommit ?c" using Cons.prems(1) by simp
    from Cons.IH [OF nc b] obtain j where
      "insert_loop fid (i + 1) fs ?c
         = Raised DbError (?c\<lparr>pending := pending ?c @ take j (rows_from fid (i + 1) fs)\<rparr>)"
      by blast
    moreover have "insert_loop fid i (f # fs) conn = insert_loop fid (i + 1) fs ?c"
      using True Cons.prems(1) by (simp add: pg_insert_def)
    ultimately have "insert_loop fid i (f # fs) conn
         = Raised DbError (conn\<lparr>pending := pending conn @ take (Suc j) (rows_from fid i (f # fs))\<rparr>)"
      by simp
    then show ?thesis by blast
  qed
qed

text \<open>
  Claim C1. On a connection with autocommit off, when the server admits every row,
  \<open>insert_mappings\<close> returns \<open>True\<close> and has committed, after what was there, exactly
  one row per field, in input order, the \<open>k\<close>-th field (from 0) with order index
  \<open>k + 1\<close>.
\<close>

theorem insert_mappings_success:
  assumes "\<not> autocommit conn"
    and "\<forall>k<length fs. admits conn (committed conn @ pending conn @ take k (expected_mappings fid fs))
            [expected_mappings fid fs ! k]"
  shows "insert_mappings conn fid fs
       = (True, conn\<lparr>committed := committed conn @ pending conn @ expected_mappings fid fs, pending := []\<rparr>)
     \<and> length (expected_mappings fid fs) = length fs
     \<and> (\<forall>k<length fs. expected_mappings fid fs ! k
            = \<lparr>form_id = fid, field_id = r_id (fs ! k), order_index = int k + 1\<rparr>)"
proof -
  have "all_admitted conn (rows_from fid 1 fs)"
    using assms(2) by (simp add: expected_rows_from all_admitted_def)
  then have "insert_loop fid 1 fs conn = Returned () (conn\<lparr>pending := pending conn @ rows_from fid 1 fs\<rparr>)"
    by (rule insert_loop_all [OF assms(1)])
  then have "insert_mappings conn fid fs
       = (True, conn\<lparr>committed := committed conn @ pending conn @ expected_mappings fid fs, pending := []\<rparr>)"
    by (simp add: insert_mappings_def pg_commit_def expected_rows_from)
  moreover have "length (expected_mappings fid fs) = length fs"
    by (simp add: expected_mappings_def)
  moreover have "\<forall>k<length fs. expected_mappings fid fs ! k
            = \<lparr>form_id = fid, field_id = r_id (fs ! k), order_index = int k + 1\<rparr>"
    by (simp add: expected_mappings_def)
  ultimately show ?thesis by blast
qed

text \<open>
  Claim C2. On a connection with autocommit off, when the server rejects one of the rows,
  \<open>insert_mappings\<close> returns \<open>False\<close> and the rollback leaves the committed rows as
  they were, with nothing pending.
\<close>

theorem insert_mappings_rollback:
  assumes "\<not> autocommit conn"
    and "\<exists>k<length fs. \<not> admits conn (committed conn @ pending conn @ take k (expected_mappings fid fs))
            [expected_mappings fid fs ! k]"
  shows "insert_mappings conn fid fs = (False, conn\<lparr>pending := []\<rparr>)"
proof -
  have "\<not> all_admitted conn (rows_from fid 1 fs)"
    using assms(2) by (simp add: expected_rows_from all_admitted_def)
  from insert_loop_some [OF assms(1) this]
  obtain j where "insert_loop fid 1 fs conn
       = Raised DbError (conn\<lparr>pending := pending conn @ take j (rows_from fid 1 fs)\<rparr>)"
    by blast
  then show ?thesis
    by (simp add: insert_mappings_def pg_rollback_def)
qed

text \<open>
  Claim C5. \<open>normalize_field_name\<close> returns its input lowercased, with every
  \<open>/ - _ ( ) . ,\<close> and every white-space character removed, and the empty string for
  the empty input. \<open>resolve_field_by_name\<close> returns the first field of the list whose
  stored normalised name equals the normalised input (with the input name attached), and
  \<open>None\<close> when there is none; on the list built by \<open>get_all_fields\<close> this is the
  first row whose name normalises to the same string as the input.
\<close>

theorem normalize_resolve_spec:
  "normalize_field_name s = filter (\<lambda>c. c \<notin> set ''/-_().,'' \<and> \<not> py_isspace c) (py_lower s)
   \<and> normalize_field_name [] = []
   \<and> resolve_field_by_name all_fields inp
       = map_option (\<lambda>fld. \<lparr>r_id = f_id fld, r_field_name = f_field_name fld, r_input_name = inp\<rparr>)
           (find (\<lambda>fld. f_normalized_name fld = normalize_field_name inp) all_fields)
   \<and> resolve_field_by_name (get_all_fields (Some results)) inp
       = map_option (\<lambda>row. \<lparr>r_id = fst row, r_field_name = snd row, r_input_name = inp\<rparr>)
           (find (\<lambda>row. normalize_field_name (snd row) = normalize_field_name inp) results)"
proof -
  have a: "normalize_field_name s = filter (\<lambda>c. c \<notin> set ''/-_().,'' \<and> \<not> py_isspace c) (py_lower s)"
    unfolding normalize_eq py_lower_def special_char_def by simp
  have b: "normalize_field_name [] = []"
    by (simp add: normalize_field_name_def)
  have c: "resolve_field_by_name all_fields inp
       = map_option (\<lambda>fld. \<lparr>r_id = f_id fld, r_field_name = f_field_name fld, r_input_name = inp\<rparr>)
           (find (\<lambda>fld. f_normalized_name fld = normalize_field_name inp) all_fields)"
    by (simp add: resolve_field_by_name_def resolve_loop_find)
  have d: "resolve_loop (get_all_fields (Some results)) n inp
       = map_option (\<lambda>row. \<lparr>r_id = fst row, r_field_name = snd row, r_input_name = inp\<rparr>)
           (find (\<lambda>row. normalize_field_name (snd row) = n) results)" for n
    by (induction results) (simp_all add: get_all_fields_def)
  from a b c d show ?thesis
    by (simp add: resolve_field_by_name_def)
qed

theorem normalize_resolve_spec_witness:
  "normalize_field_name ''First_Name (Legal)'' = ''firstnamelegal''
   \<and> resolve_field_by_name (get_all_fields (Some [(''7'', ''E-mail''), (''8'', ''First Name''), (''9'', ''first.name'')]))
        ''FIRST_NAME''
      = Some \<lparr>r_id = ''8'', r_field_name = ''First Name'', r_input_name = ''FIRST_NAME''\<rparr>
   \<and> resolve_field_by_name (get_all_fields (Some [(''7'', ''E-mail'')])) ''phone'' = None"
proof -
  have a: "filter (\<lambda>c. c \<notin> set ''/-_().,'' \<and> \<not> py_isspace c) (py_lower ''First_Name (Legal)'')
      = ''firstnamelegal''"
    by code_simp
  have b: "find (\<lambda>row. normalize_field_name (snd row) = normalize_field_name ''FIRST_NAME'')
             [(''7'', ''E-mail''), (''8'', ''First Name''), (''9'', ''first.name'')]
      = Some (''8'', ''First Name'')"
    by code_simp
  have c: "find (\<lambda>row. normalize_field_name (snd row) = normalize_field_name ''phone'')
             [(''7'', ''E-mail'')] = None"
    by code_simp
  show ?thesis
    using normalize_resolve_spec [of "''First_Name (Legal)''" "[]" "''FIRST_NAME''"
        "[(''7'', ''E-mail''), (''8'', ''First Name''), (''9'', ''first.name'')]"]
      normalize_resolve_spec [of "[]" "[]" "''phone''" "[(''7'', ''E-mail'')]"]
    by (simp only: a b c option.map fst_conv snd_conv simp_thms)
qed

text \<open>
  Claim C8. \<open>normalize_field_name\<close> is idempotent.
\<close>

theorem normalize_idempotent:
  "normalize_field_name (normalize_field_name s) = normalize_field_name s"
proof -
  let ?t = "filter (\<lambda>c. \<not> special_char c) (map py_lower_char s)"
  have "map py_lower_char ?t = ?t"
    by (induction s) simp_all
  then have "filter (\<lambda>c. \<not> special_char c) (map py_lower_char ?t) = ?t"
    by simp
  then show ?thesis by (simp add: normalize_eq)
qed

theorem normalize_idempotent_witness:
  "normalize_field_name (normalize_field_name ''Date-Of_Birth'') = ''dateofbirth''"
  unfolding normalize_idempotent [of "''Date-Of_Birth''"] by code_simp

lemma bulk_loop_lines:
  "bulk_loop acc ec (map Line ls)
     = Returned (acc @ map py_strip (takeWhile (\<lambda>l. py_strip l \<noteq> []) ls))
         (map Line (tl (dropWhile (\<lambda>l. py_strip l \<noteq> []) ls)))"
  by (induction ls arbitrary: acc ec) simp_all

text \<open>
  Claim C10. On any sequence of typed lines, \<open>get_bulk_input\<close> returns the stripped
  lines that come before the first line that is empty after stripping, or all of them when
  the input ends first; the result holds no empty string, and what follows the first empty
  line stays unread.
\<close>

theorem get_bulk_input_spec:
  "get_bulk_input prompt (map Line ls)
     = Returned (map py_strip (takeWhile (\<lambda>l. py_strip l \<noteq> []) ls))
         (map Line (tl (dropWhile (\<lambda>l. py_strip l \<noteq> []) ls)))
   \<and> [] \<notin> set (map py_strip (takeWhile (\<lambda>l. py_strip l \<noteq> []) ls))"
proof -
  have "[] \<notin> set (map py_strip (takeWhile (\<lambda>l. py_strip l \<noteq> []) ls))"
    by (auto dest: set_takeWhileD)
  then show ?thesis
    by (simp add: get_bulk_input_def bulk_loop_lines)
qed

theorem get_bulk_input_spec_witness:
  "get_bulk_input [] (map Line ['' a '', ''b'', ''  '', ''c'', []])
     = Returned [''a'', ''b''] (map Line [''c'', []])
   \<and> get_bulk_input [] (map Line [''a'', ''b'']) = Returned [''a'', ''b''] (map Line [])"
proof -
  have a: "map py_strip (takeWhile (\<lambda>l. py_strip l \<noteq> []) ['' a '', ''b'', ''  '', ''c'', []])
      = [''a'', ''b'']"
    by code_simp
  have b: "tl (dropWhile (\<lambda>l. py_strip l \<noteq> []) ['' a '', ''b'', ''  '', ''c'', []]) = [''c'', []]"
    by code_simp
  have c: "map py_strip (takeWhile (\<lambda>l. py_strip l \<noteq> []) [''a'', ''b'']) = [''a'', ''b'']"
    by code_simp
  have d: "tl (dropWhile (\<lambda>l. py_strip l \<noteq> []) [''a'', ''b'']) = []"
    by code_simp
  show ?thesis
    using get_bulk_input_spec [of "[]" "['' a '', ''b'', ''  '', ''c'', []]"]
      get_bulk_input_spec [of "[]" "[''a'', ''b'']"]
    by (simp only: a b c d simp_thms)
qed

theorem insert_mappings_success_witness:
  "insert_mappings (the (get_connection True [] (\<lambda>visible rows. True))) ''F1''
      [\<lparr>r_id = ''a'', r_field_name = ''Name'', r_input_name = ''name''\<rparr>,
       \<lparr>r_id = ''b'', r_field_name = ''Age'', r_input_name = ''age''\<rparr>]
    = (True, \<lparr>autocommit = False,
              committed = [\<lparr>form_id = ''F1'', field_id = ''a'', order_index = 1\<rparr>,
                           \<lparr>form_id = ''F1'', field_id = ''b'', order_index = 2\<rparr>],
              pending = [], admits = (\<lambda>visible rows. True)\<rparr>)"
  using insert_mappings_success [of "the (get_connection True [] (\<lambda>visible rows. True))"
      "[\<lparr>r_id = ''a'', r_field_name = ''Name'', r_input_name = ''name''\<rparr>,
       \<lparr>r_id = ''b'', r_field_name = ''Age'', r_input_name = ''age''\<rparr>]" "''F1''"]
  by (simp add: get_connection_def expected_mappings_def)

theorem insert_mappings_rollback_witness:
  "insert_mappings (the (get_connection True [] (\<lambda>visible rows. length visible < 1))) ''F1''
      [\<lparr>r_id = ''a'', r_field_name = ''Name'', r_input_name = ''name''\<rparr>,
       \<lparr>r_id = ''b'', r_field_name = ''Age'', r_input_name = ''age''\<rparr>]
    = (False, \<lparr>autocommit = False, committed = [], pending = [],
               admits = (\<lambda>visible rows. length visible < 1)\<rparr>)"
proof -
  let ?conn = "the (get_connection True [] (\<lambda>visible rows. length visible < 1))"
  let ?fs = "[\<lparr>r_id = ''a'', r_field_name = ''Name'', r_input_name = ''name''\<rparr>,
       \<lparr>r_id = ''b'', r_field_name = ''Age'', r_input_name = ''age''\<rparr>]"
  have h1: "\<not> autocommit ?conn"
    by (simp add: get_connection_def)
  have h2: "\<exists>k<length ?fs. \<not> admits ?conn (committed ?conn @ pending ?conn @ take k (expected_mappings ''F1'' ?fs))
            [expected_mappings ''F1'' ?fs ! k]"
    by (rule exI [of _ 1]) (simp add: get_connection_def expected_mappings_def)
  show ?thesis
    using insert_mappings_rollback [OF h1 h2] by (simp add: get_connection_def)
qed
section \<open>Properties of bulk_insert_categories\<close>

lemma length_rows_for [simp]: "length (rows_for key e p cats) = length cats"
  by (induction cats arbitrary: key) auto

lemma rows_for_nth:
  "i < length cats \<Longrightarrow>
     rows_for key e p cats ! i
       = \<lparr>c_id = key + i, c_name = fst (cats ! i), c_description = snd (cats ! i),
          c_category_type = ''OTHER'', c_visibility_scope = ''PUBLIC'', c_entity_id = e,
          c_parent_category_id = p\<rparr>"
proof (induction cats arbitrary: key i)
  case Nil
  then show ?case by simp
next
  case (Cons nd cats)
  then show ?case by (cases i) auto
qed

lemma new_rows_rows_for: "new_rows key e p cats = rows_for key e p cats"
  by (rule nth_equalityI) (simp_all add: new_rows_def rows_for_nth)

lemma build_values_eq:
  "build_values cats e p vl ps
     = (vl @ replicate (length cats) values_template, ps @ concat (map (param_group e p) cats))"
proof (induction cats arbitrary: vl ps)
  case Nil
  then show ?case by simp
next
  case (Cons nd cats)
  obtain n d where nd: "nd = (n, d)" by (cases nd)
  show ?case
    unfolding nd by (simp add: Cons.IH param_group_def replicate_append_same)
qed

lemma insert_query_eq:
  "insert_query cats e p
     = \<lparr>values_list = replicate (length cats) values_template,
        params = concat (map (param_group e p) cats)\<rparr>"
  by (simp add: insert_query_def build_values_eq)

lemma key_of_parent_param [simp]: "key_of (parent_param p) = Some p"
  by (cases p) (simp_all add: parent_param_def)

lemma decode_group_param_group:
  "decode_group key (param_group e p nd)
     = Some \<lparr>c_id = key, c_name = fst nd, c_description = snd nd, c_category_type = ''OTHER'',
             c_visibility_scope = ''PUBLIC'', c_entity_id = e, c_parent_category_id = p\<rparr>"
  by (simp add: decode_group_def param_group_def)

lemma length_param_group [simp]: "length (param_group e p nd) = 6"
  by (simp add: param_group_def)

lemma decode_rows_params:
  "decode_rows (length cats) key (concat (map (param_group e p) cats))
     = Some (rows_for key e p cats)"
proof (induction cats arbitrary: key)
  case Nil
  then show ?case by simp
next
  case (Cons nd cats)
  then show ?case
    by (simp add: decode_group_param_group)
qed

lemma execute_insert_query:
  "execute_insert (insert_query cats e p) conn
     = (case pg_insert (new_rows (serial conn) e p cats) conn of
          Returned u conn' \<Rightarrow>
            Returned (map c_id (new_rows (serial conn) e p cats))
              (conn'\<lparr>serial := serial conn + length cats\<rparr>)
        | Raised ex conn' \<Rightarrow> Raised ex conn'
        | OutOfFuel \<Rightarrow> OutOfFuel)"
  by (simp add: execute_insert_def insert_query_eq decode_rows_params new_rows_rows_for
      split: outcome.split)

text \<open>
  Claim C7. On a connected object with autocommit off, for a non-empty list the server
  admits, \<open>bulk_insert_categories\<close> sends exactly one statement, with one placeholder
  group and six parameters per (name, description) pair, and returns one generated key per
  pair, in input order: the \<open>i\<close>-th key is the key of the new row that holds the
  \<open>i\<close>-th name and description.
\<close>

theorem bulk_insert_categories_spec:
  assumes "categories \<noteq> []"
    and "cursor db \<noteq> None"
    and "\<not> autocommit (session w)"
    and "admits (session w) (committed (session w) @ pending (session w))
           (new_rows (serial (session w)) entity_id parent categories)"
  shows "\<exists>ids w'.
      bulk_insert_categories db categories entity_id parent w = Returned ids w'
    \<and> length ids = length categories
    \<and> trace w' = trace w @ [Execute (insert_query categories entity_id parent)]
    \<and> length (values_list (insert_query categories entity_id parent)) = length categories
    \<and> params (insert_query categories entity_id parent)
        = concat (map (param_group entity_id parent) categories)
    \<and> committed (session w') = committed (session w)
    \<and> pending (session w')
        = pending (session w) @ new_rows (serial (session w)) entity_id parent categories
    \<and> (\<forall>i<length categories.
          new_rows (serial (session w)) entity_id parent categories ! i
            = \<lparr>c_id = ids ! i, c_name = fst (categories ! i),
               c_description = snd (categories ! i), c_category_type = ''OTHER'',
               c_visibility_scope = ''PUBLIC'', c_entity_id = entity_id,
               c_parent_category_id = parent\<rparr>)"
proof -
  let ?rows = "new_rows (serial (session w)) entity_id parent categories"
  let ?stmt = "insert_query categories entity_id parent"
  let ?w' = "w\<lparr>trace := trace w @ [Execute ?stmt],
                session := (session w)\<lparr>pending := pending (session w) @ ?rows,
                                       serial := serial (session w) + length categories\<rparr>\<rparr>"
  have ex: "execute_insert ?stmt (session w)
      = Returned (map c_id ?rows)
          ((session w)\<lparr>pending := pending (session w) @ ?rows,
                       serial := serial (session w) + length categories\<rparr>)"
    using assms(3,4) by (simp add: execute_insert_query pg_insert_def)
  have run: "bulk_insert_categories db categories entity_id parent w = Returned (map c_id ?rows) ?w'"
    using assms(1,2) by (simp add: bulk_insert_categories_def cursor_execute_def ex)
  have len: "length (map c_id ?rows) = length categories"
    by (simp add: new_rows_def)
  have nth: "\<forall>i<length categories. ?rows ! i
            = \<lparr>c_id = map c_id ?rows ! i, c_name = fst (categories ! i),
               c_description = snd (categories ! i), c_category_type = ''OTHER'',
               c_visibility_scope = ''PUBLIC'', c_entity_id = entity_id,
               c_parent_category_id = parent\<rparr>"
    by (simp add: new_rows_def)
  show ?thesis
    apply (rule exI [of _ "map c_id ?rows"])
    apply (rule exI [of _ ?w'])
    using run len nth by (simp add: insert_query_eq)
qed

text \<open>
  Claim C9. With the empty list \<open>bulk_insert_categories\<close> returns the empty list and
  leaves the world as it is: no statement in the trace, the session unchanged.
\<close>

theorem bulk_insert_categories_empty:
  "bulk_insert_categories db [] entity_id parent w = Returned [] w"
  by (simp add: bulk_insert_categories_def)

theorem bulk_insert_categories_spec_witness:
  "bulk_insert_categories \<lparr>connection = Some Handle, cursor = Some Handle\<rparr>
      [(''Books'', ''All books''), (''Music'', ''All music'')] ''e1'' (Some 3)
      \<lparr>terminal = [], trace = [], reachable = True,
       session = \<lparr>autocommit = False, committed = [], pending = [],
                  admits = (\<lambda>visible rows. True), serial = 7\<rparr>\<rparr>
    = Returned [7, 8]
      \<lparr>terminal = [],
       trace = [Execute (insert_query [(''Books'', ''All books''), (''Music'', ''All music'')] ''e1'' (Some 3))],
       reachable = True,
       session = \<lparr>autocommit = False, committed = [],
                  pending = new_rows 7 ''e1'' (Some 3) [(''Books'', ''All books''), (''Music'', ''All music'')],
                  admits = (\<lambda>visible rows. True), serial = 9\<rparr>\<rparr>"
proof -
  let ?db = "\<lparr>connection = Some Handle, cursor = Some Handle\<rparr>"
  let ?cats = "[(''Books'', ''All books''), (''Music'', ''All music'')]"
  let ?w = "\<lparr>terminal = [], trace = [], reachable = True,
       session = \<lparr>autocommit = False, committed = [], pending = [],
                  admits = (\<lambda>visible rows. True), serial = 7\<rparr>\<rparr>"
  have h1: "?cats \<noteq> []" by simp
  have h2: "cursor ?db \<noteq> None" by simp
  have h3: "\<not> autocommit (session ?w)" by simp
  have h4: "admits (session ?w) (committed (session ?w) @ pending (session ?w))
           (new_rows (serial (session ?w)) ''e1'' (Some 3) ?cats)" by simp
  from bulk_insert_categories_spec [OF h1 h2 h3 h4]
  obtain ids w' where r: "bulk_insert_categories ?db ?cats ''e1'' (Some 3) ?w = Returned ids w'"
    and len: "length ids = length ?cats"
    and tr: "trace w' = trace ?w @ [Execute (insert_query ?cats ''e1'' (Some 3))]"
    and co: "committed (session w') = committed (session ?w)"
    and pe: "pending (session w') = pending (session ?w) @ new_rows (serial (session ?w)) ''e1'' (Some 3) ?cats"
    and nth: "\<forall>i<length ?cats.
          new_rows (serial (session ?w)) ''e1'' (Some 3) ?cats ! i
            = \<lparr>c_id = ids ! i, c_name = fst (?cats ! i),
               c_description = snd (?cats ! i), c_category_type = ''OTHER'',
               c_visibility_scope = ''PUBLIC'', c_entity_id = ''e1'',
               c_parent_category_id = Some 3\<rparr>"
    by blast
  have "bulk_insert_categories ?db ?cats ''e1'' (Some 3) ?w
      = Returned [7, 8]
      \<lparr>terminal = [],
       trace = [Execute (insert_query ?cats ''e1'' (Some 3))],
       reachable = True,
       session = \<lparr>autocommit = False, committed = [],
                  pending = new_rows 7 ''e1'' (Some 3) ?cats,
                  admits = (\<lambda>visible rows. True), serial = 9\<rparr>\<rparr>"
    by (simp add: bulk_insert_categories_def cursor_execute_def execute_insert_query pg_insert_def
        new_rows_def)
  with r show ?thesis by simp
qed

theorem bulk_insert_categories_empty_witness:
  "bulk_insert_categories \<lparr>connection = Some Handle, cursor = Some Handle\<rparr> [] ''e1'' None
      \<lparr>terminal = [], trace = [], reachable = True,
       session = \<lparr>autocommit = False, committed = [], pending = [],
                  admits = (\<lambda>visible rows. True), serial = 7\<rparr>\<rparr>
    = Returned []
      \<lparr>terminal = [], trace = [], reachable = True,
       session = \<lparr>autocommit = False, committed = [], pending = [],
                  admits = (\<lambda>visible rows. True), serial = 7\<rparr>\<rparr>"
  by (rule bulk_insert_categories_empty)
section \<open>Steps of the category manager\<close>



lemma py_input_fuel [simp]: "py_input p w \<noteq> OutOfFuel"
  by (auto simp: py_input_def Let_def split: list.splits in_event.splits if_splits)

lemma quiet_refl [simp]: "quiet w w"
  by (simp add: quiet_def)

lemma quiet_trans: "quiet w w1 \<Longrightarrow> quiet w1 w2 \<Longrightarrow> quiet w w2"
  by (simp add: quiet_def)





lemma get_yes_no_fuel [simp]: "get_yes_no p w \<noteq> OutOfFuel"
proof (induction p w rule: get_yes_no.induct)
  case (1 prompt w)
  show ?case
  proof (cases "py_input prompt w")
    case (Returned l w1)
    then show ?thesis
      using "1.IH" [OF Returned] by (subst get_yes_no.simps) auto
  next
    case (Raised e1 w1)
    then show ?thesis by (subst get_yes_no.simps) simp
  next
    case OutOfFuel
    then show ?thesis by simp
  qed
qed



lemma get_positive_integer_fuel [simp]: "get_positive_integer p w \<noteq> OutOfFuel"
proof (induction p w rule: get_positive_integer.induct)
  case (1 prompt w)
  show ?case
  proof (cases "py_input prompt w")
    case (Returned l w1)
    then show ?thesis
      using "1.IH"(1) [OF Returned] "1.IH"(2) [OF Returned]
      by (subst get_positive_integer.simps) (auto split: option.splits)
  next
    case (Raised e1 w1)
    then show ?thesis by (subst get_positive_integer.simps) simp
  next
    case OutOfFuel
    then show ?thesis by simp
  qed
qed



lemma get_valid_uuid_fuel [simp]: "get_valid_uuid p w \<noteq> OutOfFuel"
proof (induction p w rule: get_valid_uuid.induct)
  case (1 prompt w)
  show ?case
  proof (cases "py_input prompt w")
    case (Returned l w1)
    then show ?thesis
      using "1.IH" [OF Returned] by (subst get_valid_uuid.simps) auto
  next
    case (Raised e1 w1)
    then show ?thesis by (subst get_valid_uuid.simps) simp
  next
    case OutOfFuel
    then show ?thesis by simp
  qed
qed

lemma bulk_loop_fuel [simp]: "bulk_loop acc ec inp \<noteq> OutOfFuel"
  by (induction acc ec inp rule: bulk_loop.induct) auto


lemma read_names_Returned:
  "read_names w = Returned ls w' \<Longrightarrow> quiet w w' \<and> trace w' = trace w"
  by (auto simp: read_names_def quiet_def split: outcome.splits)


lemma collect_Returned:
  "collect_category_names_multiline fuel count indent w = Returned cats w' \<Longrightarrow>
     quiet w w' \<and> trace w' = trace w \<and> int (length cats) = count"
proof (induction fuel arbitrary: w)
  case 0
  then show ?case by simp
next
  case (Suc fuel)
  from Suc.prems obtain ls w1 where rn: "read_names w = Returned ls w1"
    by (auto split: outcome.splits)
  note r = read_names_Returned [OF rn]
  show ?case
  proof (cases "int (length (filter (\<lambda>line. line \<noteq> []) ls)) \<noteq> count")
    case True
    with Suc.prems rn have "collect_category_names_multiline fuel count indent w1 = Returned cats w'"
      by (simp add: Let_def)
    from Suc.IH [OF this] r show ?thesis by (auto intro: quiet_trans)
  next
    case False
    with Suc.prems rn have "w' = w1" "cats = map (\<lambda>name. (name, generate_description name)) (filter (\<lambda>line. line \<noteq> []) ls)"
      by (auto simp: Let_def)
    with r False show ?thesis by simp
  qed
qed


lemma pg_insert_fuel [simp]: "pg_insert rows conn \<noteq> OutOfFuel"
  by (simp add: pg_insert_def)

lemma pg_insert_Raised: "pg_insert rows conn = Raised e conn' \<Longrightarrow> e = DbError \<and> conn' = conn"
  by (auto simp: pg_insert_def split: if_splits)

lemma cursor_execute_Returned:
  "cursor_execute (insert_query cats e p) w = Returned ids w' \<Longrightarrow>
     ids = map c_id (new_rows (serial (session w)) e p cats)
     \<and> trace w' = trace w @ [Execute (insert_query cats e p)]
     \<and> reachable w' = reachable w"
  by (auto simp: cursor_execute_def execute_insert_query split: outcome.splits)

lemma bulk_insert_Returned:
  "bulk_insert_categories db cats e p w = Returned ids w' \<Longrightarrow> cats \<noteq> [] \<Longrightarrow>
     ids = map c_id (new_rows (serial (session w)) e p cats)
     \<and> trace w' = trace w @ [Execute (insert_query cats e p)]"
  by (auto simp: bulk_insert_categories_def split: if_splits outcome.splits
      dest: cursor_execute_Returned)

lemma inserted_loop_eq:
  "inserted_loop cats ids i acc
     = (if cats = [] \<or> i + length cats \<le> length ids
        then Some (acc @ map (\<lambda>j. \<lparr>cat_id = ids ! (i + j), cat_name = fst (cats ! j)\<rparr>)
                          [0..<length cats])
        else None)"
proof (induction cats arbitrary: i acc)
  case Nil
  then show ?case by simp
next
  case (Cons nd cats)
  obtain n d where nd: "nd = (n, d)" by (cases nd)
  let ?x = "\<lparr>cat_id = ids ! i, cat_name = n\<rparr>"
  let ?tl = "map (\<lambda>j. \<lparr>cat_id = ids ! (Suc i + j), cat_name = fst (cats ! j)\<rparr>) [0..<length cats]"
  have shift: "map (\<lambda>j. \<lparr>cat_id = ids ! (i + j), cat_name = fst ((nd # cats) ! j)\<rparr>) [0..<length (nd # cats)]
      = ?x # ?tl"
    by (simp add: nd upt_conv_Cons map_Suc_upt [symmetric] del: upt_Suc)
  have step: "inserted_loop (nd # cats) ids i acc
      = (if i < length ids then inserted_loop cats ids (Suc i) (acc @ [?x]) else None)"
    by (simp add: nd)
  have ih: "inserted_loop cats ids (Suc i) (acc @ [?x])
      = (if cats = [] \<or> Suc i + length cats \<le> length ids then Some ((acc @ [?x]) @ ?tl) else None)"
    by (rule Cons.IH)
  have cond: "(i < length ids \<and> (cats = [] \<or> Suc i + length cats \<le> length ids))
      = (i + length (nd # cats) \<le> length ids)"
    by (cases cats) auto
  show ?case
  proof (cases "i + length (nd # cats) \<le> length ids")
    case True
    with cond have c1: "i < length ids" and c2: "cats = [] \<or> Suc i + length cats \<le> length ids"
      by blast+
    have "inserted_loop (nd # cats) ids i acc = Some ((acc @ [?x]) @ ?tl)"
      unfolding step ih using c1 c2 by simp
    then show ?thesis
      unfolding shift using True by simp
  next
    case False
    with cond have "\<not> (i < length ids \<and> (cats = [] \<or> Suc i + length cats \<le> length ids))"
      by blast
    then have "inserted_loop (nd # cats) ids i acc = None"
      unfolding step ih by auto
    then show ?thesis
      using False by simp
  qed
qed

lemma inserted_loop_new_rows:
  "inserted_loop cats (map c_id (new_rows key e p cats)) 0 [] = Some subs \<Longrightarrow>
     map cat_name subs = map fst cats \<and> map cat_id subs = map c_id (new_rows key e p cats)
     \<and> length subs = length cats"
  by (auto simp: inserted_loop_eq new_rows_def split: if_splits intro: nth_equalityI)

lemma inserted_loop_new_rows_Some:
  "\<exists>subs. inserted_loop cats (map c_id (new_rows key e p cats)) 0 [] = Some subs"
  by (simp add: inserted_loop_eq new_rows_def)

lemma subcategory_prompt_nonempty [simp]: "subcategory_prompt level name \<noteq> []"
  by (simp add: subcategory_prompt_def)

lemma count_prompt_nonempty [simp]: "count_prompt level \<noteq> []"
  by (simp add: count_prompt_def)

section \<open>Depth-first expansion\<close>

text \<open>
  What each input helper does with the lines the specification describes, and with them
  one round of the loop of \<open>process_subcategories_depth_first\<close>.
\<close>

lemma answers_Cons:
  "answers b (l # ls)
     = (if ls = [] then (if b then is_yes l else is_no l)
        else \<not> is_yes l \<and> \<not> is_no l \<and> answers b ls)"
  by (auto simp: answers_def)

lemma answers_nonempty: "answers b ans \<Longrightarrow> ans \<noteq> []"
  by (simp add: answers_def)

lemma is_no_not_yes: "is_no l \<Longrightarrow> \<not> is_yes l"
  by (auto simp: is_yes_def is_no_def)

lemma py_input_Line:
  "terminal w = Line l # rest \<Longrightarrow> p \<noteq> [] \<Longrightarrow>
     py_input p w = Returned l (w\<lparr>terminal := rest, trace := trace w @ [Prompt p]\<rparr>)"
  by (simp add: py_input_def)

lemma get_yes_no_answers:
  "answers b ans \<Longrightarrow> terminal w = map Line ans @ rest \<Longrightarrow> p \<noteq> [] \<Longrightarrow>
     get_yes_no p w
       = Returned b (w\<lparr>terminal := rest, trace := trace w @ replicate (length ans) (Prompt p)\<rparr>)"
proof (induction ans arbitrary: w)
  case Nil
  then show ?case by (simp add: answers_def)
next
  case (Cons l ls)
  let ?w1 = "w\<lparr>terminal := map Line ls @ rest, trace := trace w @ [Prompt p]\<rparr>"
  have inp: "py_input p w = Returned l ?w1"
    using Cons.prems(2,3) by (simp add: py_input_Line)
  show ?case
  proof (cases "ls = []")
    case True
    with Cons.prems(1) have a: "if b then is_yes l else is_no l"
      by (simp add: answers_Cons)
    show ?thesis
    proof (cases b)
      case True
      with a have "is_yes l" by simp
      with inp True \<open>ls = []\<close> show ?thesis
        by (subst get_yes_no.simps) (simp add: is_yes_def)
    next
      case False
      with a have n: "is_no l" by simp
      from is_no_not_yes [OF n] n inp False \<open>ls = []\<close> show ?thesis
        by (subst get_yes_no.simps) (simp add: is_yes_def is_no_def)
    qed
  next
    case False
    with Cons.prems(1) have j: "\<not> is_yes l" "\<not> is_no l" and a: "answers b ls"
      by (simp_all add: answers_Cons)
    have step: "get_yes_no p w = get_yes_no p ?w1"
      using inp j by (subst get_yes_no.simps) (simp add: is_yes_def is_no_def)
    have "get_yes_no p ?w1
            = Returned b (?w1\<lparr>terminal := rest, trace := trace ?w1 @ replicate (length ls) (Prompt p)\<rparr>)"
      by (rule Cons.IH [OF a _ Cons.prems(3)]) simp
    then show ?thesis
      unfolding step by simp
  qed
qed

lemma counts_Cons:
  "counts n (l # ls)
     = (if ls = [] then py_int (py_strip l) = Some n \<and> 0 < n
        else no_count l \<and> counts n ls)"
  by (auto simp: counts_def)

lemma counts_nonempty: "counts n cnt \<Longrightarrow> cnt \<noteq> []"
  by (simp add: counts_def)

lemma get_positive_integer_counts:
  "counts n cnt \<Longrightarrow> terminal w = map Line cnt @ rest \<Longrightarrow> p \<noteq> [] \<Longrightarrow>
     get_positive_integer p w
       = Returned n (w\<lparr>terminal := rest, trace := trace w @ replicate (length cnt) (Prompt p)\<rparr>)"
proof (induction cnt arbitrary: w)
  case Nil
  then show ?case by (simp add: counts_def)
next
  case (Cons l ls)
  let ?w1 = "w\<lparr>terminal := map Line ls @ rest, trace := trace w @ [Prompt p]\<rparr>"
  have inp: "py_input p w = Returned l ?w1"
    using Cons.prems(2,3) by (simp add: py_input_Line)
  show ?case
  proof (cases "ls = []")
    case True
    with Cons.prems(1) have "py_int (py_strip l) = Some n" "0 < n"
      by (simp_all add: counts_Cons)
    with inp True show ?thesis
      by (subst get_positive_integer.simps) simp
  next
    case False
    with Cons.prems(1) have j: "no_count l" and a: "counts n ls"
      by (simp_all add: counts_Cons)
    have step: "get_positive_integer p w = get_positive_integer p ?w1"
      using inp j by (subst get_positive_integer.simps) (auto simp: no_count_def split: option.splits)
    have "get_positive_integer p ?w1
            = Returned n (?w1\<lparr>terminal := rest, trace := trace ?w1 @ replicate (length ls) (Prompt p)\<rparr>)"
      by (rule Cons.IH [OF a _ Cons.prems(3)]) simp
    then show ?thesis
      unfolding step by simp
  qed
qed

lemma bulk_loop_block:
  "list_all (\<lambda>l. py_strip l \<noteq> []) ns \<Longrightarrow> py_strip b = [] \<Longrightarrow>
     bulk_loop acc ec (map Line ns @ Line b # rest) = Returned (acc @ map py_strip ns) rest"
  by (induction ns arbitrary: acc ec) simp_all

lemma block_nonempty: "block typed names \<Longrightarrow> typed \<noteq> []"
  by (simp add: block_def)

lemma read_names_block:
  assumes "block typed names" and "terminal w = map Line typed @ rest"
  shows "read_names w = Returned names (w\<lparr>terminal := rest\<rparr>)"
proof -
  from assms(1) have ne: "typed \<noteq> []" and a: "list_all (\<lambda>l. py_strip l \<noteq> []) (butlast typed)"
    and b: "py_strip (last typed) = []" and n: "names = map py_strip (butlast typed)"
    by (simp_all add: block_def)
  from ne have "typed = butlast typed @ [last typed]" by simp
  then have "map Line typed @ rest = map Line (butlast typed) @ Line (last typed) # rest"
    by (metis append_Cons append_Nil append_assoc list.simps(8,9) map_append)
  with bulk_loop_block [OF a b, of "[]" 0 rest] assms(2) n show ?thesis
    by (simp add: read_names_def)
qed

lemma block_names_nonempty: "block typed names \<Longrightarrow> filter (\<lambda>line. line \<noteq> []) names = names"
  by (auto simp: block_def list_all_iff filter_id_conv)

lemma collect_names_typed:
  "names_typed n blocks names \<Longrightarrow> terminal w = map Line blocks @ rest \<Longrightarrow> length blocks \<le> fuel \<Longrightarrow>
     collect_category_names_multiline fuel n indent w
       = Returned (described names) (w\<lparr>terminal := rest\<rparr>)"
proof (induction arbitrary: w fuel rule: names_typed.induct)
  case (names_right typed names n)
  from block_nonempty [OF names_right.hyps(1)] names_right.prems(2)
  obtain f where f: "fuel = Suc f" by (cases fuel) auto
  from read_names_block [OF names_right.hyps(1) names_right.prems(1)]
    block_names_nonempty [OF names_right.hyps(1)] names_right.hyps(2)
  show ?case
    unfolding f by (simp add: described_def)
next
  case (names_again typed wrong n later names)
  from block_nonempty [OF names_again.hyps(1)] names_again.prems(2)
  obtain f where f: "fuel = Suc f" and len: "length later \<le> f"
    by (cases fuel; cases typed) auto
  let ?w1 = "w\<lparr>terminal := map Line later @ rest\<rparr>"
  have rd: "read_names w = Returned wrong ?w1"
    by (rule read_names_block [OF names_again.hyps(1)]) (simp add: names_again.prems(1))
  have "collect_category_names_multiline f n indent ?w1
          = Returned (described names) (?w1\<lparr>terminal := rest\<rparr>)"
    by (rule names_again.IH [OF _ len]) simp
  with rd block_names_nonempty [OF names_again.hyps(1)] names_again.hyps(2) show ?case
    unfolding f by simp
qed

lemma names_typed_length: "names_typed n blocks names \<Longrightarrow> int (length names) = n"
  by (induction rule: names_typed.induct) simp_all

lemma bulk_insert_run:
  assumes "cats \<noteq> []" and "cursor db \<noteq> None" and "\<not> autocommit (session w)"
    and "admits (session w) (committed (session w) @ pending (session w))
           (new_rows (serial (session w)) e p cats)"
  shows "bulk_insert_categories db cats e p w
           = Returned (map c_id (new_rows (serial (session w)) e p cats))
               (world_after w (terminal w) [Execute (insert_query cats e p)]
                  (new_rows (serial (session w)) e p cats))"
  using assms
  by (simp add: bulk_insert_categories_def cursor_execute_def execute_insert_query pg_insert_def
      world_after_def new_rows_def)

lemma inserted_loop_children:
  "inserted_loop (described names) (map c_id (new_rows key e p (described names))) 0 []
     = Some (children key names)"
  by (simp add: inserted_loop_eq new_rows_def described_def children_def)

lemma world_after_world_after:
  "world_after (world_after w r1 t1 rows1) r2 t2 rows2 = world_after w r2 (t1 @ t2) (rows1 @ rows2)"
  by (simp add: world_after_def)

lemma world_after_quiet:
  "w\<lparr>terminal := rest, trace := trace w @ t\<rparr> = world_after w rest t []"
  by (simp add: world_after_def)

lemma world_after_simps [simp]:
  "terminal (world_after w rest t rows) = rest"
  "trace (world_after w rest t rows) = trace w @ t"
  "reachable (world_after w rest t rows) = reachable w"
  "autocommit (session (world_after w rest t rows)) = autocommit (session w)"
  "committed (session (world_after w rest t rows)) = committed (session w)"
  "pending (session (world_after w rest t rows)) = pending (session w) @ rows"
  "admits (session (world_after w rest t rows)) = admits (session w)"
  "serial (session (world_after w rest t rows)) = serial (session w) + length rows"
  by (simp_all add: world_after_def)

lemma process_no_step:
  assumes "answers False ans" and "terminal w = map Line ans @ rest"
  shows "process_subcategories_depth_first (Suc fuel) db e (c # cs) level w
           = process_subcategories_depth_first fuel db e cs level
               (w\<lparr>terminal := rest,
                  trace := trace w @ replicate (length ans) (Prompt (subcategory_prompt level (cat_name c)))\<rparr>)"
  using get_yes_no_answers [OF assms subcategory_prompt_nonempty, of level "cat_name c"]
  by simp

lemma process_yes_step:
  assumes yes: "answers True ans" and cnt: "counts n cnt" and names: "names_typed n blocks names"
    and inp: "terminal w = map Line (ans @ cnt @ blocks) @ rest"
    and db: "cursor db \<noteq> None" and off: "\<not> autocommit (session w)"
    and ok: "admits (session w) (committed (session w) @ pending (session w))
               (new_rows (serial (session w)) e (Some (cat_id c)) (described names))"
    and fuel: "length blocks \<le> fuel"
  shows "process_subcategories_depth_first (Suc fuel) db e (c # cs) level w
           = (case process_subcategories_depth_first fuel db e
                     (children (serial (session w)) names) (level + 1)
                     (world_after w rest
                        (replicate (length ans) (Prompt (subcategory_prompt level (cat_name c)))
                         @ replicate (length cnt) (Prompt (count_prompt level))
                         @ [Execute (insert_query (described names) e (Some (cat_id c)))])
                        (new_rows (serial (session w)) e (Some (cat_id c)) (described names))) of
                Returned u w5 \<Rightarrow> process_subcategories_depth_first fuel db e cs level w5
              | Raised ex w5 \<Rightarrow> Raised ex w5
              | OutOfFuel \<Rightarrow> OutOfFuel)"
proof -
  let ?P = "subcategory_prompt level (cat_name c)"
  let ?t1 = "replicate (length ans) (Prompt ?P)"
  let ?t2 = "replicate (length ans) (Prompt ?P) @ replicate (length cnt) (Prompt (count_prompt level))"
  let ?w1 = "w\<lparr>terminal := map Line (cnt @ blocks) @ rest, trace := trace w @ ?t1\<rparr>"
  let ?w2 = "w\<lparr>terminal := map Line blocks @ rest, trace := trace w @ ?t2\<rparr>"
  let ?w3 = "w\<lparr>terminal := rest, trace := trace w @ ?t2\<rparr>"
  let ?rows = "new_rows (serial (session w)) e (Some (cat_id c)) (described names)"
  let ?w4 = "world_after w rest
                (replicate (length ans) (Prompt ?P)
                 @ replicate (length cnt) (Prompt (count_prompt level))
                 @ [Execute (insert_query (described names) e (Some (cat_id c)))]) ?rows"
  have yn: "get_yes_no ?P w = Returned True ?w1"
    using get_yes_no_answers [OF yes _ subcategory_prompt_nonempty,
        of w "map Line (cnt @ blocks) @ rest" level "cat_name c"] inp
    by simp
  have pi: "get_positive_integer (count_prompt level) ?w1 = Returned n ?w2"
    using get_positive_integer_counts [OF cnt _ count_prompt_nonempty,
        of ?w1 "map Line blocks @ rest" level]
    by simp
  have co: "collect_category_names_multiline fuel n (indent_of level) ?w2
              = Returned (described names) ?w3"
    using collect_names_typed [OF names _ fuel, of ?w2 rest "indent_of level"]
    by simp
  from names_typed_length [OF names] cnt have ne: "described names \<noteq> []"
    by (auto simp: counts_def described_def)
  have bi: "bulk_insert_categories db (described names) e (Some (cat_id c)) ?w3
              = Returned (map c_id ?rows) ?w4"
    using bulk_insert_run [OF ne db, of ?w3 e "Some (cat_id c)"] off ok
    by (simp add: world_after_def)
  show ?thesis
    by (simp only: process_subcategories_depth_first.simps yn pi co bi outcome.case if_True
        option.case inserted_loop_children)
qed

lemma dfs_visit_typed: "dfs_visit e level c key typed t rows \<Longrightarrow> typed \<noteq> []"
  by (induction rule: dfs_forest_dfs_visit.inducts(2)) (simp_all add: answers_nonempty)

lemma length_new_rows [simp]: "length (new_rows key e p cats) = length cats"
  by (simp add: new_rows_def)

lemma length_described [simp]: "length (described names) = length names"
  by (simp add: described_def)

lemma process_dfs:
  assumes db: "cursor db \<noteq> None"
  shows "dfs_forest e level cs key typed t rows \<Longrightarrow>
           key = serial (session w) \<Longrightarrow> terminal w = map Line typed @ rest \<Longrightarrow>
           \<not> autocommit (session w) \<Longrightarrow> \<forall>visible rs. admits (session w) visible rs \<Longrightarrow>
           length typed < fuel \<Longrightarrow>
           process_subcategories_depth_first fuel db e cs level w
             = Returned () (world_after w rest t rows)"
    and "dfs_visit e level c key typed t rows \<Longrightarrow>
           key = serial (session w) \<Longrightarrow> terminal w = map Line typed @ rest \<Longrightarrow>
           \<not> autocommit (session w) \<Longrightarrow> \<forall>visible rs. admits (session w) visible rs \<Longrightarrow>
           length typed \<le> fuel \<Longrightarrow>
           process_subcategories_depth_first (Suc fuel) db e (c # others) level w
             = process_subcategories_depth_first fuel db e others level (world_after w rest t rows)"
proof (induction arbitrary: w rest fuel and w rest fuel others rule: dfs_forest_dfs_visit.inducts)
  case (forest_nil e level key)
  then obtain f where "fuel = Suc f" by (cases fuel) auto
  with forest_nil show ?case by (simp add: world_after_def)
next
  case (forest_cons e level c key typed1 t1 rows1 cs typed2 t2 rows2)
  from dfs_visit_typed [OF forest_cons.hyps(1)] forest_cons.prems(5)
  obtain f where f: "fuel = Suc f" and l1: "length typed1 \<le> f" and l2: "length typed2 < f"
    by (cases fuel; cases typed1) auto
  let ?w1 = "world_after w (map Line typed2 @ rest) t1 rows1"
  have "process_subcategories_depth_first (Suc f) db e (c # cs) level w
          = process_subcategories_depth_first f db e cs level ?w1"
    by (rule forest_cons.IH(1) [OF forest_cons.prems(1) _ forest_cons.prems(3,4) l1])
      (simp add: forest_cons.prems(2))
  also have "\<dots> = Returned () (world_after ?w1 rest t2 rows2)"
    by (rule forest_cons.IH(2) [OF _ _ _ _ l2])
      (simp_all add: forest_cons.prems)
  finally show ?case
    unfolding f by (simp add: world_after_world_after)
next
  case (visit_leaf ans e level c key)
  from process_no_step [OF visit_leaf.hyps visit_leaf.prems(2)] show ?case
    by (simp add: world_after_quiet)
next
  case (visit_node ans n cnt blocks names e level key typed t rows c)
  let ?t1 = "replicate (length ans) (Prompt (subcategory_prompt level (cat_name c)))
             @ replicate (length cnt) (Prompt (count_prompt level))
             @ [Execute (insert_query (described names) e (Some (cat_id c)))]"
  let ?rows1 = "new_rows (serial (session w)) e (Some (cat_id c)) (described names)"
  let ?w4 = "world_after w (map Line typed @ rest) ?t1 ?rows1"
  from answers_nonempty [OF visit_node.hyps(1)] visit_node.prems(5)
  have lb: "length blocks \<le> fuel" and lt: "length typed < fuel"
    by (cases ans; simp)+
  have step: "process_subcategories_depth_first (Suc fuel) db e (c # others) level w
      = (case process_subcategories_depth_first fuel db e
                     (children (serial (session w)) names) (level + 1) ?w4 of
                Returned u w5 \<Rightarrow> process_subcategories_depth_first fuel db e others level w5
              | Raised ex w5 \<Rightarrow> Raised ex w5
              | OutOfFuel \<Rightarrow> OutOfFuel)"
    by (rule process_yes_step [OF visit_node.hyps(1,2,3) _ db visit_node.prems(3) _ lb])
      (simp_all add: visit_node.prems)
  have deep: "process_subcategories_depth_first fuel db e
                (children key names) (level + 1) ?w4
              = Returned () (world_after ?w4 rest t rows)"
    by (rule visit_node.IH [OF _ _ _ _ lt]) (simp_all add: visit_node.prems)
  show ?case
    unfolding step using deep
    by (simp add: visit_node.prems(1) world_after_world_after)
qed

lemma py_input_Interrupt:
  "terminal w = Interrupt # rest \<Longrightarrow> p \<noteq> [] \<Longrightarrow>
     py_input p w = Raised KeyboardInterrupt (w\<lparr>terminal := rest, trace := trace w @ [Prompt p]\<rparr>)"
  by (simp add: py_input_def)

lemma get_yes_no_interrupted:
  "list_all (\<lambda>line. \<not> is_yes line \<and> \<not> is_no line) typed \<Longrightarrow>
   terminal w = map Line typed @ Interrupt # rest \<Longrightarrow> p \<noteq> [] \<Longrightarrow>
     get_yes_no p w
       = Raised KeyboardInterrupt
           (w\<lparr>terminal := rest, trace := trace w @ replicate (Suc (length typed)) (Prompt p)\<rparr>)"
proof (induction typed arbitrary: w)
  case Nil
  then show ?case
    by (subst get_yes_no.simps) (simp add: py_input_Interrupt)
next
  case (Cons l ls)
  let ?w1 = "w\<lparr>terminal := map Line ls @ Interrupt # rest, trace := trace w @ [Prompt p]\<rparr>"
  have inp: "py_input p w = Returned l ?w1"
    using Cons.prems(2,3) by (simp add: py_input_Line)
  from Cons.prems(1) have j: "\<not> is_yes l" "\<not> is_no l"
    and a: "list_all (\<lambda>line. \<not> is_yes line \<and> \<not> is_no line) ls"
    by simp_all
  have step: "get_yes_no p w = get_yes_no p ?w1"
    using inp j by (subst get_yes_no.simps) (simp add: is_yes_def is_no_def)
  have "get_yes_no p ?w1
          = Raised KeyboardInterrupt
              (?w1\<lparr>terminal := rest, trace := trace ?w1 @ replicate (Suc (length ls)) (Prompt p)\<rparr>)"
    by (rule Cons.IH [OF a _ Cons.prems(3)]) simp
  then show ?case
    unfolding step by simp
qed

lemma process_interrupted_step:
  assumes "list_all (\<lambda>line. \<not> is_yes line \<and> \<not> is_no line) typed"
    and "terminal w = map Line typed @ Interrupt # rest"
  shows "process_subcategories_depth_first (Suc fuel) db e (c # cs) level w
           = Raised KeyboardInterrupt
               (w\<lparr>terminal := rest,
                  trace := trace w @ replicate (Suc (length typed))
                                       (Prompt (subcategory_prompt level (cat_name c)))\<rparr>)"
  using get_yes_no_interrupted [OF assms subcategory_prompt_nonempty, of level "cat_name c"]
  by simp

lemma names_typed_nonempty: "names_typed n blocks names \<Longrightarrow> 0 < n \<Longrightarrow> names \<noteq> []"
  by (auto dest: names_typed_length)

text \<open>
  Claim C3. Take any depth-first expansion of the given categories at the given level:
  what the user types (\<open>typed\<close>), what is to happen (\<open>t\<close>) and the rows to insert
  (\<open>rows\<close>), category by category in list order, each with its question, then (on yes)
  the insert of its subcategories and the whole expansion of those subcategories one level
  deeper, and only then the next sibling. When the input starts with \<open>typed\<close>, on an open
  connection with autocommit off whose server admits the rows, the function (with fuel
  beyond the number of typed lines) returns, has read exactly \<open>typed\<close>, has added exactly
  \<open>t\<close> to the trace and exactly \<open>rows\<close>, in this order, to the pending rows.
\<close>

theorem process_depth_first:
  assumes "dfs_forest entity_id level categories (serial (session w)) typed t rows"
    and "terminal w = map Line typed @ rest"
    and "cursor db \<noteq> None" and "\<not> autocommit (session w)"
    and "\<forall>visible rs. admits (session w) visible rs"
    and "length typed < fuel"
  shows "process_subcategories_depth_first fuel db entity_id categories level w
           = Returned () (world_after w rest t rows)"
  using process_dfs(1) [OF assms(3) assms(1) refl assms(2) assms(4) assms(5) assms(6)] .

theorem process_depth_first_witness:
  "process_subcategories_depth_first 7 \<lparr>connection = Some Handle, cursor = Some Handle\<rparr> ''e1''
     [\<lparr>cat_id = 1, cat_name = ''A''\<rparr>, \<lparr>cat_id = 2, cat_name = ''B''\<rparr>] 1
     \<lparr>terminal = map Line [''y'', ''1'', ''A1'', [], ''n'', ''n''], trace = [], reachable = True,
      session = \<lparr>autocommit = False, committed = [], pending = [],
                 admits = (\<lambda>visible rows. True), serial = 3\<rparr>\<rparr>
   = Returned ()
       \<lparr>terminal = [],
        trace = [Prompt (subcategory_prompt 1 ''A''), Prompt (count_prompt 1),
                 Execute (insert_query (described [''A1'']) ''e1'' (Some 1)),
                 Prompt (subcategory_prompt 2 ''A1''), Prompt (subcategory_prompt 1 ''B'')],
        reachable = True,
        session = \<lparr>autocommit = False, committed = [],
                   pending = new_rows 3 ''e1'' (Some 1) (described [''A1'']),
                   admits = (\<lambda>visible rows. True), serial = 4\<rparr>\<rparr>"
proof -
  let ?A = "\<lparr>cat_id = 1, cat_name = ''A''\<rparr>"
  let ?B = "\<lparr>cat_id = 2, cat_name = ''B''\<rparr>"
  let ?w = "\<lparr>terminal = map Line [''y'', ''1'', ''A1'', [], ''n'', ''n''], trace = [], reachable = True,
      session = \<lparr>autocommit = False, committed = [], pending = [],
                 admits = (\<lambda>visible rows. True), serial = 3\<rparr>\<rparr>"
  let ?db = "\<lparr>connection = Some Handle, cursor = Some Handle\<rparr>"
  have yes: "answers True [''y'']" by code_simp
  have no: "answers False [''n'']" by code_simp
  have one: "counts 1 [''1'']" by code_simp
  have blk: "block [''A1'', []] [''A1'']" by code_simp
  have names: "names_typed 1 [''A1'', []] [''A1'']"
    by (rule names_right [OF blk]) simp
  have kids: "children 3 [''A1''] = [\<lparr>cat_id = 3, cat_name = ''A1''\<rparr>]"
    by (simp add: children_def)
  have deep: "dfs_forest ''e1'' (1 + 1) (children 3 [''A1'']) (3 + length [''A1''])
                ([''n''] @ []) (replicate (length [''n'']) (Prompt (subcategory_prompt (1 + 1) ''A1'')) @ [])
                ([] @ [])"
    unfolding kids
    using forest_cons [OF visit_leaf [OF no, of "''e1''" "1 + 1" "\<lparr>cat_id = 3, cat_name = ''A1''\<rparr>" "3 + length [''A1'']"]
        forest_nil]
    by simp
  note a = visit_node [OF yes one names deep, of ?A]
  have b: "dfs_forest ''e1'' 1 [?B]
             (3 + length (new_rows 3 ''e1'' (Some (cat_id ?A)) (described [''A1'']) @ [] @ []))
             ([''n''] @ []) (replicate (length [''n'']) (Prompt (subcategory_prompt 1 ''B'')) @ [])
             ([] @ [])"
    using forest_cons [OF visit_leaf [OF no, of "''e1''" 1 ?B] forest_nil]
    by simp
  note f = forest_cons [OF a b]
  have forest: "dfs_forest ''e1'' 1 [?A, ?B] (serial (session ?w))
      (([''y''] @ [''1''] @ [''A1'', []] @ [''n''] @ []) @ [''n''] @ [])
      ((replicate (length [''y'']) (Prompt (subcategory_prompt 1 (cat_name ?A))) @
        replicate (length [''1'']) (Prompt (count_prompt 1)) @
        [Execute (insert_query (described [''A1'']) ''e1'' (Some (cat_id ?A)))] @
        replicate (length [''n'']) (Prompt (subcategory_prompt (1 + 1) ''A1'')) @ []) @
       replicate (length [''n'']) (Prompt (subcategory_prompt 1 ''B'')) @ [])
      ((new_rows 3 ''e1'' (Some (cat_id ?A)) (described [''A1'']) @ [] @ []) @ [] @ [])"
    using f by simp
  have inp: "terminal ?w
      = map Line (([''y''] @ [''1''] @ [''A1'', []] @ [''n''] @ []) @ [''n''] @ []) @ []"
    by simp
  have len: "length (([''y''] @ [''1''] @ [''A1'', []] @ [''n''] @ []) @ [''n''] @ []) < 7"
    by simp
  have run: "process_subcategories_depth_first 7 ?db ''e1'' [?A, ?B] 1 ?w
      = Returned () (world_after ?w []
      ((replicate (length [''y'']) (Prompt (subcategory_prompt 1 (cat_name ?A))) @
        replicate (length [''1'']) (Prompt (count_prompt 1)) @
        [Execute (insert_query (described [''A1'']) ''e1'' (Some (cat_id ?A)))] @
        replicate (length [''n'']) (Prompt (subcategory_prompt (1 + 1) ''A1'')) @ []) @
       replicate (length [''n'']) (Prompt (subcategory_prompt 1 ''B'')) @ [])
      ((new_rows 3 ''e1'' (Some (cat_id ?A)) (described [''A1'']) @ [] @ []) @ [] @ []))"
    by (rule process_depth_first [OF forest inp _ _ _ len]) simp_all
  show ?thesis
    unfolding run by (simp add: world_after_def numeral_2_eq_2)
qed

text \<open>
  Claim C4. For the category at the head of the list the answer to the question about
  subcategories decides. When the user answers no (after any number of lines that are
  neither yes nor no), nothing is collected or inserted: the function goes on with the
  remaining siblings in the world it started from, with only the question added to the
  trace and the answer read. When the user answers yes, gives a number and types that many
  names, on an open connection with autocommit off whose server admits the rows, there is
  at least one name, exactly these names are inserted in one statement with the category
  as their parent, the inserted subcategories are expanded one level deeper, and then the
  remaining siblings follow. When the user interrupts before answering, the function
  raises \<open>KeyboardInterrupt\<close> with nothing inserted.
\<close>

theorem subcategories_user_confirmed:
  "(answers False ans \<and> terminal w = map Line ans @ rest \<longrightarrow>
      process_subcategories_depth_first (Suc fuel) db entity_id (c # cs) level w
        = process_subcategories_depth_first fuel db entity_id cs level
            (w\<lparr>terminal := rest,
               trace := trace w @ replicate (length ans)
                                    (Prompt (subcategory_prompt level (cat_name c)))\<rparr>))
   \<and> (answers True ans \<and> counts n cnt \<and> names_typed n blocks names
        \<and> terminal w = map Line (ans @ cnt @ blocks) @ rest
        \<and> cursor db \<noteq> None \<and> \<not> autocommit (session w)
        \<and> admits (session w) (committed (session w) @ pending (session w))
             (new_rows (serial (session w)) entity_id (Some (cat_id c)) (described names))
        \<and> length blocks \<le> fuel \<longrightarrow>
      names \<noteq> []
      \<and> process_subcategories_depth_first (Suc fuel) db entity_id (c # cs) level w
        = (case process_subcategories_depth_first fuel db entity_id
                  (children (serial (session w)) names) (level + 1)
                  (world_after w rest
                     (replicate (length ans) (Prompt (subcategory_prompt level (cat_name c)))
                      @ replicate (length cnt) (Prompt (count_prompt level))
                      @ [Execute (insert_query (described names) entity_id (Some (cat_id c)))])
                     (new_rows (serial (session w)) entity_id (Some (cat_id c))
                        (described names))) of
             Returned u w5 \<Rightarrow> process_subcategories_depth_first fuel db entity_id cs level w5
           | Raised ex w5 \<Rightarrow> Raised ex w5
           | OutOfFuel \<Rightarrow> OutOfFuel))
   \<and> (list_all (\<lambda>line. \<not> is_yes line \<and> \<not> is_no line) ans
        \<and> terminal w = map Line ans @ Interrupt # rest \<longrightarrow>
      process_subcategories_depth_first (Suc fuel) db entity_id (c # cs) level w
        = Raised KeyboardInterrupt
            (w\<lparr>terminal := rest,
               trace := trace w @ replicate (Suc (length ans))
                                    (Prompt (subcategory_prompt level (cat_name c)))\<rparr>))"
proof (intro conjI impI)
  assume "answers False ans \<and> terminal w = map Line ans @ rest"
  then show "process_subcategories_depth_first (Suc fuel) db entity_id (c # cs) level w
        = process_subcategories_depth_first fuel db entity_id cs level
            (w\<lparr>terminal := rest,
               trace := trace w @ replicate (length ans)
                                    (Prompt (subcategory_prompt level (cat_name c)))\<rparr>)"
    by (intro process_no_step) simp_all
next
  assume a: "answers True ans \<and> counts n cnt \<and> names_typed n blocks names
        \<and> terminal w = map Line (ans @ cnt @ blocks) @ rest
        \<and> cursor db \<noteq> None \<and> \<not> autocommit (session w)
        \<and> admits (session w) (committed (session w) @ pending (session w))
             (new_rows (serial (session w)) entity_id (Some (cat_id c)) (described names))
        \<and> length blocks \<le> fuel"
  then show "names \<noteq> []"
    by (auto simp: counts_def dest: names_typed_nonempty)
  from a have yes: "answers True ans" and cnt: "counts n cnt"
    and names: "names_typed n blocks names"
    and inp: "terminal w = map Line (ans @ cnt @ blocks) @ rest"
    and db: "cursor db \<noteq> None" and off: "\<not> autocommit (session w)"
    and ok: "admits (session w) (committed (session w) @ pending (session w))
               (new_rows (serial (session w)) entity_id (Some (cat_id c)) (described names))"
    and fuel: "length blocks \<le> fuel"
    by blast+
  show "process_subcategories_depth_first (Suc fuel) db entity_id (c # cs) level w
        = (case process_subcategories_depth_first fuel db entity_id
                  (children (serial (session w)) names) (level + 1)
                  (world_after w rest
                     (replicate (length ans) (Prompt (subcategory_prompt level (cat_name c)))
                      @ replicate (length cnt) (Prompt (count_prompt level))
                      @ [Execute (insert_query (described names) entity_id (Some (cat_id c)))])
                     (new_rows (serial (session w)) entity_id (Some (cat_id c))
                        (described names))) of
             Returned u w5 \<Rightarrow> process_subcategories_depth_first fuel db entity_id cs level w5
           | Raised ex w5 \<Rightarrow> Raised ex w5
           | OutOfFuel \<Rightarrow> OutOfFuel)"
    by (rule process_yes_step [OF yes cnt names inp db off ok fuel])
next
  assume "list_all (\<lambda>line. \<not> is_yes line \<and> \<not> is_no line) ans
        \<and> terminal w = map Line ans @ Interrupt # rest"
  then show "process_subcategories_depth_first (Suc fuel) db entity_id (c # cs) level w
        = Raised KeyboardInterrupt
            (w\<lparr>terminal := rest,
               trace := trace w @ replicate (Suc (length ans))
                                    (Prompt (subcategory_prompt level (cat_name c)))\<rparr>)"
    by (intro process_interrupted_step) simp_all
qed

theorem subcategories_user_confirmed_witness:
  "(case process_subcategories_depth_first (Suc 1) \<lparr>connection = Some Handle, cursor = Some Handle\<rparr>
           ''e1'' (\<lparr>cat_id = 2, cat_name = ''B''\<rparr> # []) 1
           \<lparr>terminal = map Line [''maybe'', ''No''], trace = [], reachable = True,
            session = \<lparr>autocommit = False, committed = [], pending = [],
                       admits = (\<lambda>visible rows. True), serial = 3\<rparr>\<rparr> of
      Returned u w' \<Rightarrow>
        terminal w' = [] \<and> pending (session w') = [] \<and> serial (session w') = 3
        \<and> trace w' = [Prompt (subcategory_prompt 1 ''B''), Prompt (subcategory_prompt 1 ''B'')]
    | Raised ex w' \<Rightarrow> False
    | OutOfFuel \<Rightarrow> False)
   \<and> (case process_subcategories_depth_first (Suc 3) \<lparr>connection = Some Handle, cursor = Some Handle\<rparr>
           ''e1'' (\<lparr>cat_id = 1, cat_name = ''A''\<rparr> # []) 1
           \<lparr>terminal = map Line ([''y''] @ [''2''] @ [''X'', ''Y'', []]) @ map Line [''n'', ''n''],
            trace = [], reachable = True,
            session = \<lparr>autocommit = False, committed = [], pending = [],
                       admits = (\<lambda>visible rows. True), serial = 3\<rparr>\<rparr> of
      Returned u w' \<Rightarrow>
        terminal w' = []
        \<and> map c_name (pending (session w')) = [''X'', ''Y'']
        \<and> map c_id (pending (session w')) = [3, 4]
        \<and> map c_parent_category_id (pending (session w')) = [Some 1, Some 1]
        \<and> trace w' = [Prompt (subcategory_prompt 1 ''A''), Prompt (count_prompt 1),
                       Execute (insert_query (described [''X'', ''Y'']) ''e1'' (Some 1)),
                       Prompt (subcategory_prompt 2 ''X''), Prompt (subcategory_prompt 2 ''Y'')]
    | Raised ex w' \<Rightarrow> False
    | OutOfFuel \<Rightarrow> False)
   \<and> (case process_subcategories_depth_first (Suc 1) \<lparr>connection = Some Handle, cursor = Some Handle\<rparr>
           ''e1'' (\<lparr>cat_id = 2, cat_name = ''B''\<rparr> # []) 1
           \<lparr>terminal = map Line [''what''] @ Interrupt # [], trace = [], reachable = True,
            session = \<lparr>autocommit = False, committed = [], pending = [],
                       admits = (\<lambda>visible rows. True), serial = 3\<rparr>\<rparr> of
      Returned u w' \<Rightarrow> False
    | Raised ex w' \<Rightarrow> ex = KeyboardInterrupt \<and> pending (session w') = []
    | OutOfFuel \<Rightarrow> False)"
proof -
  let ?db = "\<lparr>connection = Some Handle, cursor = Some Handle\<rparr>"
  let ?A = "\<lparr>cat_id = 1, cat_name = ''A''\<rparr>"
  let ?B = "\<lparr>cat_id = 2, cat_name = ''B''\<rparr>"
  let ?conn = "\<lparr>autocommit = False, committed = [], pending = [],
                admits = (\<lambda>visible rows. True), serial = 3\<rparr>"
  let ?wn = "\<lparr>terminal = map Line [''maybe'', ''No''], trace = [], reachable = True, session = ?conn\<rparr>"
  let ?wy = "\<lparr>terminal = map Line ([''y''] @ [''2''] @ [''X'', ''Y'', []]) @ map Line [''n'', ''n''],
              trace = [], reachable = True, session = ?conn\<rparr>"
  let ?wi = "\<lparr>terminal = map Line [''what''] @ Interrupt # [], trace = [], reachable = True,
              session = ?conn\<rparr>"
  have no: "answers False [''maybe'', ''No'']" by code_simp
  have tn: "terminal ?wn = map Line [''maybe'', ''No''] @ []" by simp
  note n = subcategories_user_confirmed
    [where w = ?wn and ans = "[''maybe'', ''No'']" and rest = "[]" and fuel = 1 and db = ?db
       and entity_id = "''e1''" and c = ?B and cs = "[]" and level = 1,
     THEN conjunct1, THEN mp, OF conjI [OF no tn]]
  have first: "case process_subcategories_depth_first (Suc 1) ?db ''e1'' (?B # []) 1 ?wn of
      Returned u w' \<Rightarrow>
        terminal w' = [] \<and> pending (session w') = [] \<and> serial (session w') = 3
        \<and> trace w' = [Prompt (subcategory_prompt 1 ''B''), Prompt (subcategory_prompt 1 ''B'')]
    | Raised ex w' \<Rightarrow> False
    | OutOfFuel \<Rightarrow> False"
    by (subst n) code_simp
  have yes: "answers True [''y'']" by code_simp
  have two: "counts 2 [''2'']" by code_simp
  have blk: "block [''X'', ''Y'', []] [''X'', ''Y'']" by code_simp
  have names: "names_typed 2 [''X'', ''Y'', []] [''X'', ''Y'']"
    by (rule names_right [OF blk]) simp
  have ty: "terminal ?wy = map Line ([''y''] @ [''2''] @ [''X'', ''Y'', []]) @ map Line [''n'', ''n'']"
    by simp
  have db: "cursor ?db \<noteq> None" by simp
  have off: "\<not> autocommit (session ?wy)" by simp
  have ok: "admits (session ?wy) (committed (session ?wy) @ pending (session ?wy))
              (new_rows (serial (session ?wy)) ''e1'' (Some (cat_id ?A)) (described [''X'', ''Y'']))"
    by simp
  have len: "length [''X'', ''Y'', []] \<le> (3 :: nat)" by simp
  note y = subcategories_user_confirmed
    [where w = ?wy and ans = "[''y'']" and n = 2 and cnt = "[''2'']"
       and blocks = "[''X'', ''Y'', []]" and names = "[''X'', ''Y'']"
       and rest = "map Line [''n'', ''n'']" and fuel = 3
       and db = ?db and entity_id = "''e1''" and c = ?A and cs = "[]" and level = 1,
     THEN conjunct2, THEN conjunct1, THEN mp,
     OF conjI [OF yes conjI [OF two conjI [OF names conjI [OF ty conjI [OF db conjI [OF off
          conjI [OF ok len]]]]]]], THEN conjunct2]
  have second: "case process_subcategories_depth_first (Suc 3) ?db ''e1'' (?A # []) 1 ?wy of
      Returned u w' \<Rightarrow>
        terminal w' = []
        \<and> map c_name (pending (session w')) = [''X'', ''Y'']
        \<and> map c_id (pending (session w')) = [3, 4]
        \<and> map c_parent_category_id (pending (session w')) = [Some 1, Some 1]
        \<and> trace w' = [Prompt (subcategory_prompt 1 ''A''), Prompt (count_prompt 1),
                       Execute (insert_query (described [''X'', ''Y'']) ''e1'' (Some 1)),
                       Prompt (subcategory_prompt 2 ''X''), Prompt (subcategory_prompt 2 ''Y'')]
    | Raised ex w' \<Rightarrow> False
    | OutOfFuel \<Rightarrow> False"
    by (subst y) code_simp
  have junk: "list_all (\<lambda>line. \<not> is_yes line \<and> \<not> is_no line) [''what'']" by code_simp
  have ti: "terminal ?wi = map Line [''what''] @ Interrupt # []" by simp
  note i = subcategories_user_confirmed
    [where w = ?wi and ans = "[''what'']" and rest = "[]" and fuel = 1 and db = ?db
       and entity_id = "''e1''" and c = ?B and cs = "[]" and level = 1,
     THEN conjunct2, THEN conjunct2, THEN mp, OF conjI [OF junk ti]]
  have third: "case process_subcategories_depth_first (Suc 1) ?db ''e1'' (?B # []) 1 ?wi of
      Returned u w' \<Rightarrow> False
    | Raised ex w' \<Rightarrow> ex = KeyboardInterrupt \<and> pending (session w') = []
    | OutOfFuel \<Rightarrow> False"
    by (subst i) code_simp
  show ?thesis
    by (rule conjI [OF first conjI [OF second third]])
qed

section \<open>Every returning run is a depth-first expansion\<close>

text \<open>
  The converse of the two theorems above: what each input helper has read when it returns,
  and with that the shape of every run of \<open>process_subcategories_depth_first\<close> that
  returns.
\<close>

lemma py_input_Returned_eq:
  "py_input p w = Returned l w1 \<Longrightarrow> p \<noteq> [] \<Longrightarrow>
     \<exists>rest. terminal w = Line l # rest
       \<and> w1 = w\<lparr>terminal := rest, trace := trace w @ [Prompt p]\<rparr>"
  by (auto simp: py_input_def Let_def split: list.splits in_event.splits)

lemma answers_step:
  "\<not> is_yes l \<Longrightarrow> \<not> is_no l \<Longrightarrow> answers b ans \<Longrightarrow> answers b (l # ans)"
  by (auto simp: answers_Cons answers_def)

lemma answers_one: "(if b then is_yes l else is_no l) \<Longrightarrow> answers b [l]"
  by (simp add: answers_def)

lemma get_yes_no_Returned_answers:
  "get_yes_no p w = Returned b w' \<Longrightarrow> p \<noteq> [] \<Longrightarrow>
     \<exists>ans rest. answers b ans \<and> terminal w = map Line ans @ rest
       \<and> w' = w\<lparr>terminal := rest, trace := trace w @ replicate (length ans) (Prompt p)\<rparr>"
proof (induction p w rule: get_yes_no.induct)
  case (1 prompt w)
  from "1.prems"(1) obtain l w1 where inp: "py_input prompt w = Returned l w1"
    by (subst (asm) get_yes_no.simps) (auto split: outcome.splits)
  from py_input_Returned_eq [OF inp "1.prems"(2)] obtain r1
    where tw: "terminal w = Line l # r1"
      and w1: "w1 = w\<lparr>terminal := r1, trace := trace w @ [Prompt prompt]\<rparr>"
    by blast
  show ?case
  proof (cases "is_yes l")
    case True
    with "1.prems"(1) inp have "b = True" "w' = w1"
      by (subst (asm) get_yes_no.simps, simp add: is_yes_def)+
    with True tw w1 show ?thesis
      by (intro exI [of _ "[l]"] exI [of _ r1]) (simp add: answers_one)
  next
    case ny: False
    show ?thesis
    proof (cases "is_no l")
      case True
      with ny "1.prems"(1) inp have "b = False" "w' = w1"
        by (subst (asm) get_yes_no.simps, simp add: is_yes_def is_no_def)+
      with True tw w1 show ?thesis
        by (intro exI [of _ "[l]"] exI [of _ r1]) (simp add: answers_one)
    next
      case nn: False
      from ny nn "1.prems"(1) inp have rec: "get_yes_no prompt w1 = Returned b w'"
        by (subst (asm) get_yes_no.simps) (simp add: is_yes_def is_no_def)
      from ny nn have c1: "py_lower (py_strip l) \<notin> {''y'', ''yes''}"
        and c2: "py_lower (py_strip l) \<notin> {''n'', ''no''}"
        by (simp_all add: is_yes_def is_no_def)
      from "1.IH" [OF inp c1 c2 rec "1.prems"(2)] obtain ans rest
        where a: "answers b ans" and t: "terminal w1 = map Line ans @ rest"
          and w': "w' = w1\<lparr>terminal := rest,
                            trace := trace w1 @ replicate (length ans) (Prompt prompt)\<rparr>"
        by blast
      from w' w1 have "w' = w\<lparr>terminal := rest,
                    trace := trace w @ replicate (length (l # ans)) (Prompt prompt)\<rparr>"
        by simp
      moreover from tw t w1 have "terminal w = map Line (l # ans) @ rest" by simp
      ultimately show ?thesis
        using answers_step [OF ny nn a] by blast
    qed
  qed
qed

lemma counts_step: "no_count l \<Longrightarrow> counts n cnt \<Longrightarrow> counts n (l # cnt)"
  by (auto simp: counts_Cons counts_def)

lemma counts_one: "py_int (py_strip l) = Some n \<Longrightarrow> 0 < n \<Longrightarrow> counts n [l]"
  by (simp add: counts_def)

lemma get_positive_integer_Returned_counts:
  "get_positive_integer p w = Returned n w' \<Longrightarrow> p \<noteq> [] \<Longrightarrow>
     \<exists>cnt rest. counts n cnt \<and> terminal w = map Line cnt @ rest
       \<and> w' = w\<lparr>terminal := rest, trace := trace w @ replicate (length cnt) (Prompt p)\<rparr>"
proof (induction p w rule: get_positive_integer.induct)
  case (1 prompt w)
  from "1.prems"(1) obtain l w1 where inp: "py_input prompt w = Returned l w1"
    by (subst (asm) get_positive_integer.simps) (auto split: outcome.splits)
  from py_input_Returned_eq [OF inp "1.prems"(2)] obtain r1
    where tw: "terminal w = Line l # r1"
      and w1: "w1 = w\<lparr>terminal := r1, trace := trace w @ [Prompt prompt]\<rparr>"
    by blast
  show ?case
  proof (cases "no_count l")
    case False
    then obtain v where v: "py_int (py_strip l) = Some v" "0 < v"
      by (auto simp: no_count_def split: option.splits)
    with "1.prems"(1) inp have "n = v" "w' = w1"
      by (subst (asm) get_positive_integer.simps, simp)+
    with v tw w1 show ?thesis
      by (intro exI [of _ "[l]"] exI [of _ r1]) (simp add: counts_one)
  next
    case True
    with "1.prems"(1) inp have rec: "get_positive_integer prompt w1 = Returned n w'"
      by (subst (asm) get_positive_integer.simps) (auto simp: no_count_def split: option.splits)
    have "\<exists>cnt rest. counts n cnt \<and> terminal w1 = map Line cnt @ rest
       \<and> w' = w1\<lparr>terminal := rest, trace := trace w1 @ replicate (length cnt) (Prompt prompt)\<rparr>"
    proof (cases "py_int (py_strip l)")
      case None
      from "1.IH"(1) [OF inp None rec "1.prems"(2)] show ?thesis .
    next
      case (Some v)
      with True have "\<not> 0 < v" by (simp add: no_count_def)
      from "1.IH"(2) [OF inp Some this rec "1.prems"(2)] show ?thesis .
    qed
    then obtain cnt rest
      where a: "counts n cnt" and t: "terminal w1 = map Line cnt @ rest"
        and w': "w' = w1\<lparr>terminal := rest,
                          trace := trace w1 @ replicate (length cnt) (Prompt prompt)\<rparr>"
      by blast
    from w' w1 have "w' = w\<lparr>terminal := rest,
                  trace := trace w @ replicate (length (l # cnt)) (Prompt prompt)\<rparr>"
      by simp
    moreover from tw t w1 have "terminal w = map Line (l # cnt) @ rest" by simp
    ultimately show ?thesis
      using counts_step [OF True a] by blast
  qed
qed

lemma bulk_loop_Returned_block:
  "bulk_loop acc ec inp = Returned lines rest \<Longrightarrow> rest \<noteq> [] \<Longrightarrow>
     \<exists>ns b. inp = map Line ns @ Line b # rest \<and> list_all (\<lambda>l. py_strip l \<noteq> []) ns
       \<and> py_strip b = [] \<and> lines = acc @ map py_strip ns"
proof (induction acc ec inp rule: bulk_loop.induct)
  case (1 lines empty_count)
  then show ?case by simp
next
  case (2 lines empty_count rest)
  then show ?case by simp
next
  case (3 acc empty_count l tl)
  show ?case
  proof (cases "py_strip l = []")
    case True
    with "3.prems" show ?thesis
      by (intro exI [of _ "[]"] exI [of _ l]) simp
  next
    case False
    with "3.prems" have "bulk_loop (acc @ [py_strip l]) 0 tl = Returned lines rest"
      by simp
    from "3.IH"(2) [OF False this "3.prems"(2)] obtain ns b
      where "tl = map Line ns @ Line b # rest" "list_all (\<lambda>l. py_strip l \<noteq> []) ns"
        "py_strip b = []" "lines = (acc @ [py_strip l]) @ map py_strip ns"
      by blast
    with False show ?thesis
      by (intro exI [of _ "l # ns"] exI [of _ b]) simp
  qed
qed

lemma block_snoc:
  "list_all (\<lambda>l. py_strip l \<noteq> []) ns \<Longrightarrow> py_strip b = [] \<Longrightarrow> block (ns @ [b]) (map py_strip ns)"
  by (simp add: block_def)

lemma read_names_Returned_block:
  assumes "read_names w = Returned names w1" and "terminal w1 \<noteq> []"
  shows "\<exists>typed rest. block typed names \<and> terminal w = map Line typed @ rest
           \<and> w1 = w\<lparr>terminal := rest\<rparr>"
proof -
  from assms(1) obtain rest where bl: "bulk_loop [] 0 (terminal w) = Returned names rest"
    and w1: "w1 = w\<lparr>terminal := rest\<rparr>"
    by (auto simp: read_names_def split: outcome.splits)
  from w1 assms(2) have "rest \<noteq> []" by simp
  from bulk_loop_Returned_block [OF bl this] obtain ns b
    where "terminal w = map Line ns @ Line b # rest"
      "list_all (\<lambda>l. py_strip l \<noteq> []) ns" "py_strip b = []" "names = map py_strip ns"
    by auto
  with block_snoc [of ns b] w1 show ?thesis
    by (intro exI [of _ "ns @ [b]"] exI [of _ rest]) simp
qed

lemma collect_Returned_names_typed:
  "collect_category_names_multiline fuel n indent w = Returned subs w' \<Longrightarrow> terminal w' \<noteq> [] \<Longrightarrow>
     \<exists>blocks names rest. names_typed n blocks names \<and> subs = described names
       \<and> terminal w = map Line blocks @ rest \<and> w' = w\<lparr>terminal := rest\<rparr>"
proof (induction fuel arbitrary: w)
  case 0
  then show ?case by simp
next
  case (Suc fuel)
  from Suc.prems(1) obtain lines w1 where rd: "read_names w = Returned lines w1"
    by (auto split: outcome.splits)
  show ?case
  proof (cases "int (length (filter (\<lambda>line. line \<noteq> []) lines)) = n")
    case True
    with Suc.prems(1) rd have w': "w' = w1"
      and subs: "subs = map (\<lambda>name. (name, generate_description name)) (filter (\<lambda>line. line \<noteq> []) lines)"
      by (auto simp: Let_def)
    from read_names_Returned_block [OF rd] Suc.prems(2) w' obtain typed rest
      where b: "block typed lines" and t: "terminal w = map Line typed @ rest"
        and w1: "w1 = w\<lparr>terminal := rest\<rparr>"
      by auto
    note f = block_names_nonempty [OF b]
    from True f have "names_typed n typed lines"
      by (intro names_right [OF b]) simp
    with subs f t w1 w' show ?thesis
      by (intro exI [of _ typed] exI [of _ lines] exI [of _ rest]) (simp add: described_def)
  next
    case False
    with Suc.prems(1) rd
    have rec: "collect_category_names_multiline fuel n indent w1 = Returned subs w'"
      by (auto simp: Let_def)
    from Suc.IH [OF rec Suc.prems(2)] obtain blocks names rest
      where nt: "names_typed n blocks names" and subs: "subs = described names"
        and t1: "terminal w1 = map Line blocks @ rest"
        and w': "w' = w1\<lparr>terminal := rest\<rparr>"
      by blast
    from w' Suc.prems(2) have "rest \<noteq> []" by simp
    with t1 have "terminal w1 \<noteq> []" by simp
    from read_names_Returned_block [OF rd this] obtain typed r1
      where b: "block typed lines" and t: "terminal w = map Line typed @ r1"
        and w1: "w1 = w\<lparr>terminal := r1\<rparr>"
      by auto
    from False block_names_nonempty [OF b] have "int (length lines) \<noteq> n" by simp
    from names_again [OF b this nt] have "names_typed n (typed @ blocks) names" .
    moreover from w' w1 have "w' = w\<lparr>terminal := rest\<rparr>" by simp
    moreover from t t1 w1 have "terminal w = map Line (typed @ blocks) @ rest" by simp
    ultimately show ?thesis
      using subs by blast
  qed
qed

lemma bulk_insert_Returned_world:
  assumes "bulk_insert_categories db cats e p w = Returned ids w'" and "cats \<noteq> []"
    and "\<not> autocommit (session w)"
  shows "ids = map c_id (new_rows (serial (session w)) e p cats)
     \<and> w' = world_after w (terminal w) [Execute (insert_query cats e p)]
              (new_rows (serial (session w)) e p cats)"
  using assms
  by (auto simp: bulk_insert_categories_def cursor_execute_def execute_insert_query pg_insert_def
      world_after_def new_rows_def split: if_splits outcome.splits)

lemma process_Returned_input:
  "process_subcategories_depth_first fuel db e (c # cs) level w = Returned u w' \<Longrightarrow> terminal w \<noteq> []"
proof (cases fuel)
  case 0
  assume "process_subcategories_depth_first fuel db e (c # cs) level w = Returned u w'"
  with 0 show ?thesis by simp
next
  case (Suc f)
  assume "process_subcategories_depth_first fuel db e (c # cs) level w = Returned u w'"
  with Suc obtain b w1 where "get_yes_no (subcategory_prompt level (cat_name c)) w = Returned b w1"
    by (auto split: outcome.splits)
  from get_yes_no_Returned_answers [OF this subcategory_prompt_nonempty] show ?thesis
    by (auto simp: answers_def)
qed

lemma world_after_same [simp]: "world_after w (terminal w) [] [] = w"
  by (simp add: world_after_def)

lemma world_after_terminal:
  "(world_after w r t rows)\<lparr>terminal := r'\<rparr> = world_after w r' t rows"
  by (simp add: world_after_def)

lemma world_after_prompts:
  "(world_after w r t [])\<lparr>terminal := r', trace := trace (world_after w r t []) @ t'\<rparr>
     = world_after w r' (t @ t') []"
  by (simp add: world_after_def)

text \<open>
  Whenever the function returns (autocommit being off), what it has read, what it has added
  to the trace and the rows it has inserted form a depth-first expansion of the given
  categories; no other run returns.
\<close>

lemma process_Returned_dfs:
  "process_subcategories_depth_first fuel db e cs level w = Returned u w' \<Longrightarrow>
   \<not> autocommit (session w) \<Longrightarrow>
     \<exists>typed t rows rest. dfs_forest e level cs (serial (session w)) typed t rows
        \<and> terminal w = map Line typed @ rest \<and> w' = world_after w rest t rows"
proof (induction fuel arbitrary: cs level w w' u)
  case 0
  then show ?case by simp
next
  case (Suc fuel)
  let ?key = "serial (session w)"
  show ?case
  proof (cases cs)
    case Nil
    with Suc.prems have "w' = w" by simp
    then have "dfs_forest e level [] ?key [] [] [] \<and> terminal w = map Line [] @ terminal w
        \<and> w' = world_after w (terminal w) [] []"
      by (simp add: forest_nil)
    with Nil show ?thesis by blast
  next
    case (Cons c others)
    let ?P = "subcategory_prompt level (cat_name c)"
    from Suc.prems(1) Cons obtain b w1 where yn: "get_yes_no ?P w = Returned b w1"
      by (auto split: outcome.splits)
    from get_yes_no_Returned_answers [OF yn subcategory_prompt_nonempty] obtain ans r1
      where a: "answers b ans" and i1: "terminal w = map Line ans @ r1"
        and w1: "w1 = world_after w r1 (replicate (length ans) (Prompt ?P)) []"
      by (auto simp: world_after_quiet)
    let ?t1 = "replicate (length ans) (Prompt ?P)"
    from w1 Suc.prems(2) have off1: "\<not> autocommit (session w1)" by simp
    show ?thesis
    proof (cases b)
      case False
      with Suc.prems(1) Cons yn
      have sib: "process_subcategories_depth_first fuel db e others level w1 = Returned u w'"
        by simp
      from Suc.IH [OF sib off1] obtain typed2 t2 rows2 rest
        where f2: "dfs_forest e level others (serial (session w1)) typed2 t2 rows2"
          and i2: "terminal w1 = map Line typed2 @ rest"
          and w': "w' = world_after w1 rest t2 rows2"
        by blast
      from f2 w1
      have f2': "dfs_forest e level others (?key + length ([] :: category_row list)) typed2 t2 rows2"
        by simp
      from a False have "answers False ans" by simp
      from forest_cons [OF visit_leaf [OF this] f2']
      have "dfs_forest e level (c # others) ?key (ans @ typed2) (?t1 @ t2) ([] @ rows2)" .
      moreover from i1 i2 w1 have "terminal w = map Line (ans @ typed2) @ rest" by simp
      moreover from w' w1 have "w' = world_after w rest (?t1 @ t2) ([] @ rows2)"
        by (simp add: world_after_world_after)
      ultimately show ?thesis
        unfolding Cons by blast
    next
      case True
      let ?Q = "count_prompt level"
      from Suc.prems(1) Cons yn True obtain n w2
        where pi: "get_positive_integer ?Q w1 = Returned n w2"
        by (auto split: outcome.splits)
      from get_positive_integer_Returned_counts [OF pi count_prompt_nonempty] obtain cnt r2
        where cn: "counts n cnt" and i2: "terminal w1 = map Line cnt @ r2"
          and w2': "w2 = w1\<lparr>terminal := r2, trace := trace w1 @ replicate (length cnt) (Prompt ?Q)\<rparr>"
        by blast
      let ?t2 = "replicate (length cnt) (Prompt ?Q)"
      from w2' have w2: "w2 = world_after w r2 (?t1 @ ?t2) []"
        unfolding w1 by (simp only: world_after_prompts)
      from cn have pos: "0 < n" by (simp add: counts_def)
      from Suc.prems(1) Cons yn True pi obtain subs w3
        where co: "collect_category_names_multiline fuel n (indent_of level) w2 = Returned subs w3"
        by (auto split: outcome.splits)
      from collect_Returned [OF co] pos have ne: "subs \<noteq> []" by auto
      from Suc.prems(1) Cons yn True pi co obtain ids w4
        where bi: "bulk_insert_categories db subs e (Some (cat_id c)) w3 = Returned ids w4"
        by (auto split: outcome.splits)
      from collect_Returned [OF co] w2 Suc.prems(2)
      have off3: "\<not> autocommit (session w3)" and s3: "serial (session w3) = ?key"
        by (simp_all add: quiet_def)
      from bulk_insert_Returned_world [OF bi ne off3]
      have ids: "ids = map c_id (new_rows ?key e (Some (cat_id c)) subs)"
        and w4': "w4 = world_after w3 (terminal w3) [Execute (insert_query subs e (Some (cat_id c)))]
                         (new_rows ?key e (Some (cat_id c)) subs)"
        by (simp_all add: s3)
      from Suc.prems(1) Cons yn True pi co bi obtain kids
        where il: "inserted_loop subs ids 0 [] = Some kids"
        by (auto split: outcome.splits option.splits)
      from inserted_loop_new_rows [OF il [unfolded ids]] ne have kne: "kids \<noteq> []"
        by auto
      from Suc.prems(1) Cons yn True pi co bi il obtain u5 w5
        where deep: "process_subcategories_depth_first fuel db e kids (level + 1) w4 = Returned u5 w5"
        by (auto split: outcome.splits)
      with Suc.prems(1) Cons yn True pi co bi il
      have sib: "process_subcategories_depth_first fuel db e others level w5 = Returned u w'"
        by simp
      from kne obtain k ks where "kids = k # ks" by (cases kids) auto
      with process_Returned_input deep have "terminal w4 \<noteq> []" by blast
      with w4' have t3: "terminal w3 \<noteq> []" by simp
      from collect_Returned_names_typed [OF co t3] obtain blocks names r3
        where nt: "names_typed n blocks names" and subs: "subs = described names"
          and i3: "terminal w2 = map Line blocks @ r3" and w3': "w3 = w2\<lparr>terminal := r3\<rparr>"
        by blast
      from w3' have w3: "w3 = world_after w r3 (?t1 @ ?t2) []"
        unfolding w2 by (simp only: world_after_terminal)
      let ?rows1 = "new_rows ?key e (Some (cat_id c)) (described names)"
      let ?ex = "[Execute (insert_query (described names) e (Some (cat_id c)))]"
      from w4' have w4: "w4 = world_after w r3 ((?t1 @ ?t2) @ ?ex) ([] @ ?rows1)"
        unfolding subs w3 by (simp add: world_after_world_after)
      from il have kids: "kids = children ?key names"
        unfolding ids subs by (simp add: inserted_loop_children)
      from w4 Suc.prems(2) have off4: "\<not> autocommit (session w4)" by simp
      from Suc.IH [OF deep off4] obtain typed5 t5 rows5 r5
        where f5: "dfs_forest e (level + 1) kids (serial (session w4)) typed5 t5 rows5"
          and i5: "terminal w4 = map Line typed5 @ r5"
          and w5': "w5 = world_after w4 r5 t5 rows5"
        by blast
      from f5 w4 have f5': "dfs_forest e (level + 1) (children ?key names) (?key + length names)
                              typed5 t5 rows5"
        unfolding kids by simp
      from w5' have w5: "w5 = world_after w r5 (((?t1 @ ?t2) @ ?ex) @ t5) (([] @ ?rows1) @ rows5)"
        unfolding w4 by (simp only: world_after_world_after)
      from w5 Suc.prems(2) have off5: "\<not> autocommit (session w5)" by simp
      from Suc.IH [OF sib off5] obtain typed6 t6 rows6 r6
        where f6: "dfs_forest e level others (serial (session w5)) typed6 t6 rows6"
          and i6: "terminal w5 = map Line typed6 @ r6"
          and w6: "w' = world_after w5 r6 t6 rows6"
        by blast
      from f6 w5 have f6': "dfs_forest e level others (?key + length (?rows1 @ rows5)) typed6 t6 rows6"
        by simp
      from a True have yes: "answers True ans" by simp
      from forest_cons [OF visit_node [OF yes cn nt f5', of c] f6']
      have "dfs_forest e level (c # others) ?key ((ans @ cnt @ blocks @ typed5) @ typed6)
              ((?t1 @ ?t2 @ ?ex @ t5) @ t6) ((?rows1 @ rows5) @ rows6)" .
      moreover from i1 i2 i3 i5 i6 w1 w2 w3 w4 w5
      have "terminal w = map Line ((ans @ cnt @ blocks @ typed5) @ typed6) @ r6"
        by simp
      moreover from w6 have "w' = world_after w r6 ((?t1 @ ?t2 @ ?ex @ t5) @ t6) ((?rows1 @ rows5) @ rows6)"
        unfolding w5 by (simp add: world_after_world_after)
      ultimately show ?thesis
        unfolding Cons by blast
    qed
  qed
qed

section \<open>The open transaction\<close>


lemma inserted_rows_prompts [simp]: "inserted_rows key (replicate k (Prompt p)) = []"
  by (induction k) simp_all

lemma grown_refl [simp]: "grown w w []"
  by (simp add: grown_def)












lemma process_Cons_then_do:
  "process_subcategories_depth_first (Suc fuel) db entity_id (cat # rest) level w =
     then_do (get_yes_no (subcategory_prompt level (cat_name cat)) w) (\<lambda>has_sub w1.
       if has_sub then
         then_do (get_positive_integer (count_prompt level) w1) (\<lambda>sub_count w2.
           then_do (collect_category_names_multiline fuel sub_count (indent_of level) w2)
             (\<lambda>sub_categories w3.
               then_do (bulk_insert_categories db sub_categories entity_id (Some (cat_id cat)) w3)
                 (\<lambda>sub_ids w4.
                   case inserted_loop sub_categories sub_ids 0 [] of
                     None \<Rightarrow> Raised IndexError w4
                   | Some inserted_subs \<Rightarrow>
                       then_do (process_subcategories_depth_first fuel db entity_id
                                  inserted_subs (level + 1) w4)
                         (\<lambda>u w5. process_subcategories_depth_first fuel db entity_id rest level w5))))
       else process_subcategories_depth_first fuel db entity_id rest level w1)"
  by (simp add: then_do_def split: outcome.splits option.splits)




lemma main_expand_then_do:
  "main_expand fuel db w =
     then_do (get_valid_uuid ''Enter the Entity ID (UUID format): '' w) (\<lambda>entity_id w1.
       then_do (get_positive_integer ''Enter number of categories: '' w1) (\<lambda>top_count w2.
         then_do (collect_category_names_multiline fuel top_count [] w2) (\<lambda>top_categories w3.
           then_do (bulk_insert_categories db top_categories entity_id None w3) (\<lambda>top_ids w4.
             case inserted_loop top_categories top_ids 0 [] of
               None \<Rightarrow> Raised IndexError w4
             | Some inserted_top \<Rightarrow>
                 process_subcategories_depth_first fuel db entity_id inserted_top 1 w4))))"
  by (simp add: main_expand_def then_do_def split: outcome.splits option.splits)


lemma connect_reachable:
  "reachable w \<Longrightarrow>
     connect init_DatabaseConnection w
       = (True, \<lparr>connection = Some Handle, cursor = Some Handle\<rparr>,
          w\<lparr>session := (session w)\<lparr>autocommit := False, pending := []\<rparr>\<rparr>)"
  by (simp add: connect_def psycopg2_connect_def init_DatabaseConnection_def)

lemma connect_unreachable:
  "\<not> reachable w \<Longrightarrow> connect init_DatabaseConnection w = (False, init_DatabaseConnection, w)"
  by (simp add: connect_def psycopg2_connect_def)




lemma main_unreachable: "\<not> reachable w \<Longrightarrow> main fuel w = Raised SystemExit w"
  by (simp add: main_def connect_unreachable)

section \<open>All or nothing\<close>



section \<open>Interrupted sessions end\<close>

lemma total_then:
  assumes "total fuel r" and "\<And>x w1. r = Returned x w1 \<Longrightarrow> total fuel (f x w1)"
  shows "total fuel (then_do r f)"
  using assms by (cases r) (simp_all add: total_def then_do_def)

lemma total_Returned_D: "total fuel r \<Longrightarrow> r = Returned x w' \<Longrightarrow> ready fuel w'"
  by (simp add: total_def)

lemma total_Suc: "total fuel r \<Longrightarrow> total (Suc fuel) r"
  by (cases r) (simp_all add: total_def ready_def)

lemma total_fuel: "total fuel r \<Longrightarrow> r \<noteq> OutOfFuel"
  by (cases r) (simp_all add: total_def)

lemma ready_py_input:
  "py_input p w = Returned l w' \<Longrightarrow> ready (Suc fuel) w \<Longrightarrow> ready fuel w'"
  by (auto simp: py_input_def ready_def Let_def split: list.splits in_event.splits if_splits)

lemma ready_Suc: "ready fuel w \<Longrightarrow> ready (Suc fuel) w"
  by (simp add: ready_def)

lemma total_get_yes_no: "ready (Suc fuel) w \<Longrightarrow> total fuel (get_yes_no p w)"
proof (induction p w rule: get_yes_no.induct)
  case (1 prompt w)
  show ?case
  proof (cases "py_input prompt w")
    case (Returned l w1)
    have r1: "ready fuel w1" by (rule ready_py_input [OF Returned "1.prems"])
    from "1.IH" [OF Returned _ _ ready_Suc [OF r1]] r1 Returned show ?thesis
      by (subst get_yes_no.simps) (simp add: total_def)
  next
    case (Raised e1 w1)
    then show ?thesis by (subst get_yes_no.simps) (simp add: total_def)
  next
    case OutOfFuel
    then show ?thesis by simp
  qed
qed

lemma total_get_positive_integer:
  "ready (Suc fuel) w \<Longrightarrow> total fuel (get_positive_integer p w)"
proof (induction p w rule: get_positive_integer.induct)
  case (1 prompt w)
  show ?case
  proof (cases "py_input prompt w")
    case (Returned l w1)
    have r1: "ready fuel w1" by (rule ready_py_input [OF Returned "1.prems"])
    from "1.IH" [OF Returned] r1 Returned show ?thesis
      by (subst get_positive_integer.simps)
        (auto simp: total_def intro: ready_Suc split: option.splits)
  next
    case (Raised e1 w1)
    then show ?thesis by (subst get_positive_integer.simps) (simp add: total_def)
  next
    case OutOfFuel
    then show ?thesis by simp
  qed
qed

lemma total_get_valid_uuid: "ready (Suc fuel) w \<Longrightarrow> total fuel (get_valid_uuid p w)"
proof (induction p w rule: get_valid_uuid.induct)
  case (1 prompt w)
  show ?case
  proof (cases "py_input prompt w")
    case (Returned l w1)
    have r1: "ready fuel w1" by (rule ready_py_input [OF Returned "1.prems"])
    from "1.IH" [OF Returned _ ready_Suc [OF r1]] r1 Returned show ?thesis
      by (subst get_valid_uuid.simps) (simp add: total_def)
  next
    case (Raised e1 w1)
    then show ?thesis by (subst get_valid_uuid.simps) (simp add: total_def)
  next
    case OutOfFuel
    then show ?thesis by simp
  qed
qed

lemma bulk_loop_consumes:
  "bulk_loop acc ec inp = Returned lines rest \<Longrightarrow> Interrupt \<in> set inp \<Longrightarrow>
     Interrupt \<in> set rest \<and> length rest < length inp"
  by (induction acc ec inp rule: bulk_loop.induct) (auto split: if_splits)

lemma ready_read_names:
  "read_names w = Returned ls w' \<Longrightarrow> ready (Suc fuel) w \<Longrightarrow> ready fuel w'"
  by (auto simp: read_names_def ready_def split: outcome.splits dest: bulk_loop_consumes)

lemma total_collect:
  "ready fuel w \<Longrightarrow> total fuel (collect_category_names_multiline fuel count indent w)"
proof (induction fuel arbitrary: w)
  case 0
  then show ?case by (simp add: ready_def)
next
  case (Suc fuel)
  show ?case
  proof (cases "read_names w")
    case (Returned ls w1)
    have r1: "ready fuel w1" by (rule ready_read_names [OF Returned Suc.prems])
    from Suc.IH [OF r1] r1 Returned show ?thesis
      by (auto simp: Let_def total_def intro: total_Suc ready_Suc split: outcome.splits)
  next
    case (Raised e1 w1)
    then show ?thesis by (simp add: total_def)
  next
    case OutOfFuel
    then show ?thesis by (simp add: read_names_def split: outcome.splits)
  qed
qed

lemma total_bulk_insert:
  "ready fuel w \<Longrightarrow> total fuel (bulk_insert_categories db cats e p w)"
  by (auto simp: bulk_insert_categories_def cursor_execute_def execute_insert_query pg_insert_def
      total_def ready_def)

lemma total_process:
  "ready fuel w \<Longrightarrow>
     total fuel (process_subcategories_depth_first fuel db entity_id categories level w)"
proof (induction fuel arbitrary: categories level w)
  case 0
  then show ?case by (simp add: ready_def)
next
  case (Suc fuel)
  show ?case
  proof (cases categories)
    case Nil
    with Suc.prems show ?thesis by (simp add: total_def)
  next
    case (Cons cat rest)
    have "total fuel (then_do (get_yes_no (subcategory_prompt level (cat_name cat)) w) (\<lambda>has_sub w1.
       if has_sub then
         then_do (get_positive_integer (count_prompt level) w1) (\<lambda>sub_count w2.
           then_do (collect_category_names_multiline fuel sub_count (indent_of level) w2)
             (\<lambda>sub_categories w3.
               then_do (bulk_insert_categories db sub_categories entity_id (Some (cat_id cat)) w3)
                 (\<lambda>sub_ids w4.
                   case inserted_loop sub_categories sub_ids 0 [] of
                     None \<Rightarrow> Raised IndexError w4
                   | Some inserted_subs \<Rightarrow>
                       then_do (process_subcategories_depth_first fuel db entity_id
                                  inserted_subs (level + 1) w4)
                         (\<lambda>u w5. process_subcategories_depth_first fuel db entity_id rest level w5))))
       else process_subcategories_depth_first fuel db entity_id rest level w1))"
    proof (rule total_then [OF total_get_yes_no [OF Suc.prems]])
      fix has_sub w1
      assume yn: "get_yes_no (subcategory_prompt level (cat_name cat)) w = Returned has_sub w1"
      have a1: "ready fuel w1"
        by (rule total_Returned_D [OF total_get_yes_no [OF Suc.prems] yn])
      show "total fuel (if has_sub then
         then_do (get_positive_integer (count_prompt level) w1) (\<lambda>sub_count w2.
           then_do (collect_category_names_multiline fuel sub_count (indent_of level) w2)
             (\<lambda>sub_categories w3.
               then_do (bulk_insert_categories db sub_categories entity_id (Some (cat_id cat)) w3)
                 (\<lambda>sub_ids w4.
                   case inserted_loop sub_categories sub_ids 0 [] of
                     None \<Rightarrow> Raised IndexError w4
                   | Some inserted_subs \<Rightarrow>
                       then_do (process_subcategories_depth_first fuel db entity_id
                                  inserted_subs (level + 1) w4)
                         (\<lambda>u w5. process_subcategories_depth_first fuel db entity_id rest level w5))))
       else process_subcategories_depth_first fuel db entity_id rest level w1)"
      proof (cases has_sub)
        case False
        then show ?thesis using Suc.IH [OF a1] by simp
      next
        case True
        have i1: "total fuel (get_positive_integer (count_prompt level) w1)"
          by (rule total_get_positive_integer [OF ready_Suc [OF a1]])
        have "total fuel (then_do (get_positive_integer (count_prompt level) w1) (\<lambda>sub_count w2.
           then_do (collect_category_names_multiline fuel sub_count (indent_of level) w2)
             (\<lambda>sub_categories w3.
               then_do (bulk_insert_categories db sub_categories entity_id (Some (cat_id cat)) w3)
                 (\<lambda>sub_ids w4.
                   case inserted_loop sub_categories sub_ids 0 [] of
                     None \<Rightarrow> Raised IndexError w4
                   | Some inserted_subs \<Rightarrow>
                       then_do (process_subcategories_depth_first fuel db entity_id
                                  inserted_subs (level + 1) w4)
                         (\<lambda>u w5. process_subcategories_depth_first fuel db entity_id rest level w5)))))"
        proof (rule total_then [OF i1])
          fix sub_count w2
          assume pi: "get_positive_integer (count_prompt level) w1 = Returned sub_count w2"
          have a2: "ready fuel w2"
            by (rule total_Returned_D [OF i1 pi])
          show "total fuel (then_do (collect_category_names_multiline fuel sub_count (indent_of level) w2)
             (\<lambda>sub_categories w3.
               then_do (bulk_insert_categories db sub_categories entity_id (Some (cat_id cat)) w3)
                 (\<lambda>sub_ids w4.
                   case inserted_loop sub_categories sub_ids 0 [] of
                     None \<Rightarrow> Raised IndexError w4
                   | Some inserted_subs \<Rightarrow>
                       then_do (process_subcategories_depth_first fuel db entity_id
                                  inserted_subs (level + 1) w4)
                         (\<lambda>u w5. process_subcategories_depth_first fuel db entity_id rest level w5))))"
          proof (rule total_then [OF total_collect [OF a2]])
            fix sub_categories w3
            assume co: "collect_category_names_multiline fuel sub_count (indent_of level) w2
                          = Returned sub_categories w3"
            have a3: "ready fuel w3"
              by (rule total_Returned_D [OF total_collect [OF a2] co])
            show "total fuel (then_do (bulk_insert_categories db sub_categories entity_id (Some (cat_id cat)) w3)
                 (\<lambda>sub_ids w4.
                   case inserted_loop sub_categories sub_ids 0 [] of
                     None \<Rightarrow> Raised IndexError w4
                   | Some inserted_subs \<Rightarrow>
                       then_do (process_subcategories_depth_first fuel db entity_id
                                  inserted_subs (level + 1) w4)
                         (\<lambda>u w5. process_subcategories_depth_first fuel db entity_id rest level w5)))"
            proof (rule total_then [OF total_bulk_insert [OF a3]])
              fix sub_ids w4
              assume bi: "bulk_insert_categories db sub_categories entity_id (Some (cat_id cat)) w3
                            = Returned sub_ids w4"
              have a4: "ready fuel w4"
                by (rule total_Returned_D [OF total_bulk_insert [OF a3] bi])
              show "total fuel (case inserted_loop sub_categories sub_ids 0 [] of
                     None \<Rightarrow> Raised IndexError w4
                   | Some inserted_subs \<Rightarrow>
                       then_do (process_subcategories_depth_first fuel db entity_id
                                  inserted_subs (level + 1) w4)
                         (\<lambda>u w5. process_subcategories_depth_first fuel db entity_id rest level w5))"
              proof (cases "inserted_loop sub_categories sub_ids 0 []")
                case None
                then show ?thesis by (simp add: total_def)
              next
                case (Some inserted_subs)
                have "total fuel (then_do (process_subcategories_depth_first fuel db entity_id
                                  inserted_subs (level + 1) w4)
                         (\<lambda>u w5. process_subcategories_depth_first fuel db entity_id rest level w5))"
                proof (rule total_then [OF Suc.IH [OF a4]])
                  fix u w5
                  assume "process_subcategories_depth_first fuel db entity_id inserted_subs (level + 1) w4
                            = Returned u w5"
                  from total_Returned_D [OF Suc.IH [OF a4] this]
                  show "total fuel (process_subcategories_depth_first fuel db entity_id rest level w5)"
                    by (rule Suc.IH)
                qed
                with Some show ?thesis by simp
              qed
            qed
          qed
        qed
        with True show ?thesis by simp
      qed
    qed
    then show ?thesis
      unfolding Cons process_Cons_then_do by (rule total_Suc)
  qed
qed

lemma total_main_expand:
  assumes a0: "ready fuel w"
  shows "total fuel (main_expand fuel db w)"
  unfolding main_expand_then_do
proof (rule total_then)
  show i0: "total fuel (get_valid_uuid ''Enter the Entity ID (UUID format): '' w)"
    by (rule total_get_valid_uuid [OF ready_Suc [OF a0]])
  fix entity_id w1
  assume r1: "get_valid_uuid ''Enter the Entity ID (UUID format): '' w = Returned entity_id w1"
  have a1: "ready fuel w1"
    by (rule total_Returned_D [OF i0 r1])
  have i1: "total fuel (get_positive_integer ''Enter number of categories: '' w1)"
    by (rule total_get_positive_integer [OF ready_Suc [OF a1]])
  show "total fuel (then_do (get_positive_integer ''Enter number of categories: '' w1) (\<lambda>top_count w2.
         then_do (collect_category_names_multiline fuel top_count [] w2) (\<lambda>top_categories w3.
           then_do (bulk_insert_categories db top_categories entity_id None w3) (\<lambda>top_ids w4.
             case inserted_loop top_categories top_ids 0 [] of
               None \<Rightarrow> Raised IndexError w4
             | Some inserted_top \<Rightarrow>
                 process_subcategories_depth_first fuel db entity_id inserted_top 1 w4))))"
  proof (rule total_then [OF i1])
    fix top_count w2
    assume r2: "get_positive_integer ''Enter number of categories: '' w1 = Returned top_count w2"
    have a2: "ready fuel w2"
      by (rule total_Returned_D [OF i1 r2])
    show "total fuel (then_do (collect_category_names_multiline fuel top_count [] w2) (\<lambda>top_categories w3.
           then_do (bulk_insert_categories db top_categories entity_id None w3) (\<lambda>top_ids w4.
             case inserted_loop top_categories top_ids 0 [] of
               None \<Rightarrow> Raised IndexError w4
             | Some inserted_top \<Rightarrow>
                 process_subcategories_depth_first fuel db entity_id inserted_top 1 w4)))"
    proof (rule total_then [OF total_collect [OF a2]])
      fix top_categories w3
      assume r3: "collect_category_names_multiline fuel top_count [] w2 = Returned top_categories w3"
      have a3: "ready fuel w3"
        by (rule total_Returned_D [OF total_collect [OF a2] r3])
      show "total fuel (then_do (bulk_insert_categories db top_categories entity_id None w3) (\<lambda>top_ids w4.
             case inserted_loop top_categories top_ids 0 [] of
               None \<Rightarrow> Raised IndexError w4
             | Some inserted_top \<Rightarrow>
                 process_subcategories_depth_first fuel db entity_id inserted_top 1 w4))"
      proof (rule total_then [OF total_bulk_insert [OF a3]])
        fix top_ids w4
        assume r4: "bulk_insert_categories db top_categories entity_id None w3 = Returned top_ids w4"
        have a4: "ready fuel w4"
          by (rule total_Returned_D [OF total_bulk_insert [OF a3] r4])
        show "total fuel (case inserted_loop top_categories top_ids 0 [] of
               None \<Rightarrow> Raised IndexError w4
             | Some inserted_top \<Rightarrow>
                 process_subcategories_depth_first fuel db entity_id inserted_top 1 w4)"
        proof (cases "inserted_loop top_categories top_ids 0 []")
          case None
          then show ?thesis by (simp add: total_def)
        next
          case (Some inserted_top)
          with total_process [OF a4] show ?thesis by simp
        qed
      qed
    qed
  qed
qed

text \<open>
  A session that the user ends with an interrupt never runs for ever: fuel beyond the
  number of input events is enough for \<open>main\<close> to come to an end.
\<close>

lemma main_total:
  assumes re: "reachable w" and int: "Interrupt \<in> set (terminal w)"
    and len: "length (terminal w) < fuel"
  shows "main fuel w \<noteq> OutOfFuel"
proof -
  let ?db = "\<lparr>connection = Some Handle, cursor = Some Handle\<rparr>"
  let ?w0 = "w\<lparr>session := (session w)\<lparr>autocommit := False, pending := []\<rparr>\<rparr>"
  have co: "connect init_DatabaseConnection w = (True, ?db, ?w0)"
    by (rule connect_reachable [OF re])
  have a0: "ready fuel ?w0"
    using int len by (simp add: ready_def)
  have t0: "total fuel (main_expand fuel ?db ?w0)"
    by (rule total_main_expand [OF a0])
  have "main_try fuel ?db ?w0 \<noteq> OutOfFuel"
  proof (cases "main_expand fuel ?db ?w0")
    case OutOfFuel
    with t0 show ?thesis by (simp add: total_def)
  next
    case (Raised e w1)
    then show ?thesis by (simp add: main_try_def)
  next
    case (Returned u w1)
    then show ?thesis by (simp add: main_try_def split: outcome.splits)
  qed
  with co show ?thesis
    by (simp add: main_def split: outcome.splits)
qed


end
